theory Spec2Isabelle
  imports Complex_Main
begin

section \<open>The multithreaded VQA dispatcher of generate_VQA.py\<close>

text \<open>
  The development embeds \<^verbatim>\<open>generate_VQA.py\<close>: the credential pool
  (\<^verbatim>\<open>APIKeyManager\<close>), the work queue of the standard library as the
  script uses it (\<^verbatim>\<open>put\<close>, \<^verbatim>\<open>get\<close>, \<^verbatim>\<open>task_done\<close>), the seeding
  loop of the dispatcher and the loop of \<^verbatim>\<open>worker_task\<close>. One iteration of the
  worker loop is one atomic step on the shared state; what the outside world decides
  (whether the image opens, what the API answers, what \<^verbatim>\<open>random.random()\<close>
  draws) is an input of the step.
\<close>

subsection \<open>Exceptions\<close>

text \<open>
  A raised exception is kept with the text that \<^verbatim>\<open>str(e)\<close> gives, since the
  worker classifies a failure by that text alone.
\<close>

datatype py_error =
    IndexError
  | ValueError string
  | Exception string

fun error_msg :: "py_error \<Rightarrow> string" where
  "error_msg IndexError = ''list index out of range''"
| "error_msg (ValueError m) = m"
| "error_msg (Exception m) = m"

subsection \<open>Strings\<close>

text \<open>\<^verbatim>\<open>s.startswith(p)\<close> and the substring test \<^verbatim>\<open>p in s\<close>.\<close>

fun startswith :: "string \<Rightarrow> string \<Rightarrow> bool" where
  "startswith s [] = True"
| "startswith [] (c # p) = False"
| "startswith (d # s) (c # p) = (c = d \<and> startswith s p)"

fun str_in :: "string \<Rightarrow> string \<Rightarrow> bool" where
  "str_in p [] = (p = [])"
| "str_in p (c # s) = (startswith (c # s) p \<or> str_in p s)"

text \<open>
  \<^verbatim>\<open>s.replace(old, new)\<close> for a non-empty \<^verbatim>\<open>old\<close>: occurrences are replaced
  from the left and do not overlap. (The script only calls it with
  \<^verbatim>\<open>old = ".jpg"\<close>.)
\<close>

function str_replace :: "string \<Rightarrow> string \<Rightarrow> string \<Rightarrow> string" where
  "str_replace old new [] = []"
| "str_replace old new (c # s) =
     (if old \<noteq> [] \<and> startswith (c # s) old
      then new @ str_replace old new (drop (length old) (c # s))
      else c # str_replace old new s)"
  by pat_completeness auto
termination
  by (relation "measure (\<lambda>(old, new, s). length s)") auto

text \<open>
  \<^verbatim>\<open>os.path.basename\<close> (POSIX): everything after the last slash.
\<close>

definition basename :: "string \<Rightarrow> string" where
  "basename p = rev (takeWhile (\<lambda>c. c \<noteq> CHR ''/'') (rev p))"

subsection \<open>The credential pool\<close>

text \<open>
  \<^verbatim>\<open>GeminiAPIHandler\<close>: the two fields the worker reads. Building the
  client makes no request.
\<close>

record GeminiAPIHandler =
  h_api_key :: string
  h_model_name :: string

record APIKeyManager =
  api_keys :: "string list"
  api_key :: string
  key_index :: nat
  model_name :: string

text \<open>\<^verbatim>\<open>__init__\<close>: \<^verbatim>\<open>api_keys[0]\<close> raises on an empty list.\<close>

definition APIKeyManager_init :: "string list \<Rightarrow> py_error + APIKeyManager" where
  "APIKeyManager_init keys =
     (case keys of
        [] \<Rightarrow> Inl IndexError
      | k # _ \<Rightarrow> Inr \<lparr>api_keys = keys, api_key = k, key_index = 0,
                      model_name = ''gemini-2.0-flash''\<rparr>)"

definition get_next_api_key :: "APIKeyManager \<Rightarrow> py_error + (string \<times> APIKeyManager)" where
  "get_next_api_key km =
     (if key_index km < length (api_keys km)
      then Inr (api_keys km ! key_index km,
                km\<lparr>key_index := (key_index km + 1) mod length (api_keys km)\<rparr>)
      else Inl IndexError)"

definition create_api_handler :: "APIKeyManager \<Rightarrow> GeminiAPIHandler" where
  "create_api_handler km = \<lparr>h_api_key = api_key km, h_model_name = model_name km\<rparr>"

text \<open>
  \<^verbatim>\<open>[km.get_next_api_key() for _ in range(n)]\<close>: the keys returned by \<open>n\<close>
  calls in a row, and the pool afterwards.
\<close>

fun next_keys :: "nat \<Rightarrow> APIKeyManager \<Rightarrow> py_error + (string list \<times> APIKeyManager)" where
  "next_keys 0 km = Inr ([], km)"
| "next_keys (Suc n) km =
     (case get_next_api_key km of
        Inl e \<Rightarrow> Inl e
      | Inr (k, km') \<Rightarrow>
          (case next_keys n km' of
             Inl e \<Rightarrow> Inl e
           | Inr (ks, km'') \<Rightarrow> Inr (k # ks, km'')))"

subsection \<open>Requests and results\<close>

text \<open>
  A request is the dictionary that \<^verbatim>\<open>create_request\<close> of the request
  generator builds; these are the keys the dispatcher reads. The labels come from
  \<^verbatim>\<open>metadata.get(...)\<close> and may be \<^verbatim>\<open>None\<close>. The script assumes that
  \<^verbatim>\<open>image_path\<close> is present and a string, as the generator writes it.
\<close>

record request =
  image_id :: string
  image_path :: string
  prompt :: string
  image_primary_label :: "string option"
  image_secondary_label :: "string option"

text \<open>The dictionary that \<^verbatim>\<open>call_gemini_api\<close> returns and the worker dumps.\<close>

record result =
  res_image_id :: string
  res_image_path :: string
  res_image_primary_label :: "string option"
  res_image_secondary_label :: "string option"
  res_api_response :: "string option"
  res_prompt :: string
  res_model_name :: string

text \<open>
  Lines 142-143 and 240-241: the worker and the seeding loop both name the response
  file after the base name of \<^verbatim>\<open>image_path\<close> with every \<^verbatim>\<open>.jpg\<close> removed.
  (The local variable is called \<^verbatim>\<open>image_id\<close>, but the request's own
  \<^verbatim>\<open>image_id\<close> key is not read here.) The name has no slash, so joining it to
  \<^verbatim>\<open>Path(output_dir)\<close> appends it.
\<close>

definition local_image_id :: "request \<Rightarrow> string" where
  "local_image_id req = str_replace ''.jpg'' [] (basename (image_path req))"

definition generated_response_file :: "string \<Rightarrow> request \<Rightarrow> string" where
  "generated_response_file output_dir req =
     output_dir @ ''/'' @ local_image_id req @ ''_response.json''"

subsection \<open>Floating-point sleeps\<close>

text \<open>
  The sleep durations are Python floats (IEEE-754 binary64). \<open>Float m e\<close> stands for
  \<open>m * 2 ^ e\<close>; every sum and product is rounded to 53 significant bits, ties to
  even. Only non-negative finite values far from overflow and underflow occur.
\<close>

datatype pyfloat = Float nat int

fun float_val :: "pyfloat \<Rightarrow> rat" where
  "float_val (Float m e) =
     (if 0 \<le> e then of_nat m * 2 ^ nat e else of_nat m / 2 ^ nat (- e))"

text \<open>
  The number of binary digits of \<open>n\<close> (\<^verbatim>\<open>int.bit_length\<close>).
\<close>

fun bitlength :: "nat \<Rightarrow> nat" where
  "bitlength n = (if n = 0 then 0 else Suc (bitlength (n div 2)))"

declare bitlength.simps [simp del]

text \<open>
  \<open>round_half_even n s\<close> is \<open>n / 2 ^ s\<close> rounded to the nearest integer, a tie
  going to the even one. \<open>round53 n e\<close> is the float nearest to \<open>n * 2 ^ e\<close>: the
  digits of \<open>n\<close> beyond the first 53 are rounded away.
\<close>

definition round_half_even :: "nat \<Rightarrow> nat \<Rightarrow> nat" where
  "round_half_even n s =
     (let f = n div 2 ^ s;
          r = n mod 2 ^ s
      in if 2 * r < 2 ^ s \<or> (2 * r = 2 ^ s \<and> even f) then f else f + 1)"

definition round53 :: "nat \<Rightarrow> int \<Rightarrow> pyfloat" where
  "round53 n e =
     (let s = bitlength n - 53
      in Float (round_half_even n s) (e + int s))"

fun float_mul :: "pyfloat \<Rightarrow> pyfloat \<Rightarrow> pyfloat" where
  "float_mul (Float m1 e1) (Float m2 e2) = round53 (m1 * m2) (e1 + e2)"

fun float_add :: "pyfloat \<Rightarrow> pyfloat \<Rightarrow> pyfloat" where
  "float_add (Float m1 e1) (Float m2 e2) =
     (let e = min e1 e2
      in round53 (m1 * 2 ^ nat (e1 - e) + m2 * 2 ^ nat (e2 - e)) e)"

text \<open>
  \<^verbatim>\<open>random.random()\<close> returns \<open>k / 2 ^ 53\<close> for an integer \<open>0 \<le> k < 2 ^ 53\<close>;
  the draw \<open>k\<close> is an input of the model.
\<close>

definition random_random :: "nat \<Rightarrow> pyfloat" where
  "random_random k = Float k (- 53)"

text \<open>The literal \<^verbatim>\<open>0.05\<close>: the binary64 value nearest to 1/20.\<close>

definition float_0_05 :: pyfloat where
  "float_0_05 = Float 7205759403792794 (- 57)"

text \<open>Line 198: \<^verbatim>\<open>4 + 4 * random.random()\<close>; line 203: \<^verbatim>\<open>0.05 + 0.05 * random.random()\<close>.\<close>

definition backoff_delay :: "nat \<Rightarrow> pyfloat" where
  "backoff_delay k = float_add (Float 4 0) (float_mul (Float 4 0) (random_random k))"

definition courtesy_delay :: "nat \<Rightarrow> pyfloat" where
  "courtesy_delay k = float_add float_0_05 (float_mul float_0_05 (random_random k))"

subsection \<open>The work queue\<close>

text \<open>
  \<^verbatim>\<open>queue.Queue\<close> as the script uses it. An item is a request or the stop
  signal \<^verbatim>\<open>None\<close>. \<^verbatim>\<open>put\<close> counts the item as unfinished;
  \<^verbatim>\<open>task_done\<close> takes one off the count and raises \<^verbatim>\<open>ValueError\<close> when
  the count would fall below zero (so the count is a natural number);
  \<^verbatim>\<open>join\<close> returns when the count is zero.
\<close>

record Queue =
  items :: "request option list"
  unfinished_tasks :: nat

definition Queue_init :: Queue where
  "Queue_init = \<lparr>items = [], unfinished_tasks = 0\<rparr>"

definition put :: "Queue \<Rightarrow> request option \<Rightarrow> Queue" where
  "put q x = q\<lparr>items := items q @ [x], unfinished_tasks := unfinished_tasks q + 1\<rparr>"

definition task_done :: "Queue \<Rightarrow> py_error + Queue" where
  "task_done q =
     (if unfinished_tasks q = 0 then Inl (ValueError ''task_done() called too many times'')
      else Inr (q\<lparr>unfinished_tasks := unfinished_tasks q - 1\<rparr>))"

subsection \<open>Shared state, worker state and the outside world\<close>

text \<open>
  The trace records, in order, what a run does to the queue, to the API and to the
  clock (\<open>BackoffSleep\<close> is the sleep of line 198, \<open>CourtesySleep\<close> that of
  line 203). It is a ghost field: nothing reads it.
\<close>

datatype event =
    Get "request option"
  | Put "request option"
  | TaskDone
  | ApiCall GeminiAPIHandler request
  | CreateHandler GeminiAPIHandler
  | WriteFile string
  | BackoffSleep pyfloat
  | CourtesySleep pyfloat

record shared =
  request_queue :: Queue
  key_manager :: APIKeyManager
  files :: "string \<rightharpoonup> result"
  completed_counter :: nat
  trace :: "event list"

record worker =
  api_handler :: GeminiAPIHandler
  consecutive_errors :: nat

text \<open>
  What the outside world decides in one iteration: how the processing attempt ends
  (\<^verbatim>\<open>Image.open\<close> raises, the API call raises, \<^verbatim>\<open>open(..., "w")\<close> raises
  after the API has answered, or all three succeed), and the two random draws.
\<close>

datatype attempt =
    ImageOpenFails string
  | ApiFails string
  | WriteFails "string option" string
  | Succeeds "string option"

record env =
  attempt :: attempt
  backoff_draw :: nat
  courtesy_draw :: nat

text \<open>How an iteration leaves the loop body.\<close>

datatype control = Continue | Break | Raise py_error

definition log :: "event \<Rightarrow> shared \<Rightarrow> shared" where
  "log ev s = s\<lparr>trace := trace s @ [ev]\<rparr>"

definition q_put :: "request option \<Rightarrow> shared \<Rightarrow> shared" where
  "q_put x s = log (Put x) (s\<lparr>request_queue := put (request_queue s) x\<rparr>)"

definition q_task_done :: "shared \<Rightarrow> py_error option \<times> shared" where
  "q_task_done s =
     (case task_done (request_queue s) of
        Inl e \<Rightarrow> (Some e, log TaskDone s)
      | Inr q \<Rightarrow> (None, log TaskDone (s\<lparr>request_queue := q\<rparr>)))"

subsection \<open>call_gemini_api\<close>

definition api_invoked :: "attempt \<Rightarrow> bool" where
  "api_invoked a = (case a of ImageOpenFails _ \<Rightarrow> False | _ \<Rightarrow> True)"

definition call_gemini_api :: "GeminiAPIHandler \<Rightarrow> request \<Rightarrow> attempt \<Rightarrow> py_error + result" where
  "call_gemini_api h req a =
     (let build = (\<lambda>api_response.
            \<lparr>res_image_id = image_id req,
             res_image_path = image_path req,
             res_image_primary_label = image_primary_label req,
             res_image_secondary_label = image_secondary_label req,
             res_api_response = api_response,
             res_prompt = prompt req,
             res_model_name = h_model_name h\<rparr>)
      in case a of
           ImageOpenFails m \<Rightarrow> Inl (Exception m)
         | ApiFails m \<Rightarrow> Inl (Exception m)
         | WriteFails api_response _ \<Rightarrow> Inr (build api_response)
         | Succeeds api_response \<Rightarrow> Inr (build api_response))"

subsection \<open>worker_task\<close>

definition possible_errors :: "string list" where
  "possible_errors =
     [''429 Quota exceeded for quota metric'',
      ''429 Resource has been exhausted'',
      ''429 RESOURCE_EXHAUSTED'']"

definition max_consecutive_errors :: nat where
  "max_consecutive_errors = 100"

definition quota_exceeded :: "string \<Rightarrow> bool" where
  "quota_exceeded msg = list_ex (\<lambda>error. str_in error msg) possible_errors"

text \<open>
  Lines 200-203, the \<^verbatim>\<open>finally\<close> clause. It runs however the \<^verbatim>\<open>try\<close>
  statement is left: normally, by \<^verbatim>\<open>continue\<close>, by \<^verbatim>\<open>break\<close>, or by an
  exception raised in the handler. An exception of its own \<^verbatim>\<open>task_done\<close>
  replaces whatever was pending and leaves the loop.
\<close>

definition finally_clause :: "env \<Rightarrow> control \<Rightarrow> worker \<Rightarrow> shared \<Rightarrow> control \<times> worker \<times> shared" where
  "finally_clause ev pending w s =
     (case q_task_done s of
        (Some e, s1) \<Rightarrow> (Raise e, w, s1)
      | (None, s1) \<Rightarrow> (pending, w, log (CourtesySleep (courtesy_delay (courtesy_draw ev))) s1))"

text \<open>Lines 166-198, the \<^verbatim>\<open>except Exception as e\<close> clause, followed by the \<^verbatim>\<open>finally\<close> clause.\<close>

definition except_clause ::
  "env \<Rightarrow> request \<Rightarrow> py_error \<Rightarrow> worker \<Rightarrow> shared \<Rightarrow> control \<times> worker \<times> shared" where
  "except_clause ev req e w s =
     (if quota_exceeded (error_msg e) then
        let h = create_api_handler (key_manager s);
            w1 = w\<lparr>api_handler := h\<rparr>;
            s1 = log (CreateHandler h) s;
            s2 = q_put (Some req) s1;
            s3 = log (BackoffSleep (backoff_delay (backoff_draw ev))) s2
        in finally_clause ev Continue w1 s3
      else
        let w1 = w\<lparr>consecutive_errors := consecutive_errors w + 1\<rparr>
        in if consecutive_errors w1 \<ge> max_consecutive_errors then
             (case q_task_done s of
                (Some e', s1) \<Rightarrow> finally_clause ev (Raise e') w1 s1
              | (None, s1) \<Rightarrow> finally_clause ev Break w1 s1)
           else
             let s1 = q_put (Some req) s;
                 s2 = log (BackoffSleep (backoff_delay (backoff_draw ev))) s1
             in finally_clause ev Continue w1 s2)"

text \<open>Lines 141-164, the \<^verbatim>\<open>try\<close> block, with its two clauses.\<close>

definition try_statement ::
  "string \<Rightarrow> env \<Rightarrow> request \<Rightarrow> worker \<Rightarrow> shared \<Rightarrow> control \<times> worker \<times> shared" where
  "try_statement output_dir ev req w s =
     (let file = generated_response_file output_dir req
      in if files s file \<noteq> None then
           (case q_task_done s of
              (Some e, s1) \<Rightarrow> except_clause ev req e w s1
            | (None, s1) \<Rightarrow> finally_clause ev Continue w s1)
         else
           let s1 = (if api_invoked (attempt ev) then log (ApiCall (api_handler w) req) s else s)
           in case call_gemini_api (api_handler w) req (attempt ev) of
                Inl e \<Rightarrow> except_clause ev req e w s1
              | Inr res \<Rightarrow>
                  (case attempt ev of
                     WriteFails _ m \<Rightarrow> except_clause ev req (Exception m) w s1
                   | _ \<Rightarrow>
                       let s2 = log (WriteFile file) (s1\<lparr>files := (files s1)(file \<mapsto> res)\<rparr>);
                           s3 = s2\<lparr>completed_counter := completed_counter s2 + 1\<rparr>;
                           w1 = w\<lparr>consecutive_errors := 0\<rparr>
                       in finally_clause ev Continue w1 s3))"

text \<open>
  One pass through the body of \<^verbatim>\<open>while True\<close> (lines 127-203). An empty queue
  stands for \<^verbatim>\<open>get(timeout=5)\<close> raising \<^verbatim>\<open>Empty\<close>. The stop signal is
  acknowledged outside the \<^verbatim>\<open>try\<close> statement.
\<close>

definition worker_iteration ::
  "string \<Rightarrow> env \<Rightarrow> worker \<Rightarrow> shared \<Rightarrow> control \<times> worker \<times> shared" where
  "worker_iteration output_dir ev w s =
     (case items (request_queue s) of
        [] \<Rightarrow> (Break, w, s)
      | x # rest \<Rightarrow>
          let s1 = log (Get x) (s\<lparr>request_queue := (request_queue s)\<lparr>items := rest\<rparr>\<rparr>)
          in case x of
               None \<Rightarrow>
                 (case q_task_done s1 of
                    (Some e, s2) \<Rightarrow> (Raise e, w, s2)
                  | (None, s2) \<Rightarrow> (Break, w, s2))
             | Some req \<Rightarrow> try_statement output_dir ev req w s1)"

text \<open>
  The loop, driven by a list of environments, one per iteration. \<open>Running\<close>: the
  list ended while the worker was still in its loop.
\<close>

datatype exit = Running | Stopped | Crashed py_error

fun worker_loop :: "string \<Rightarrow> env list \<Rightarrow> worker \<Rightarrow> shared \<Rightarrow> exit \<times> worker \<times> shared" where
  "worker_loop output_dir [] w s = (Running, w, s)"
| "worker_loop output_dir (ev # evs) w s =
     (case worker_iteration output_dir ev w s of
        (Continue, w', s') \<Rightarrow> worker_loop output_dir evs w' s'
      | (Break, w', s') \<Rightarrow> (Stopped, w', s')
      | (Raise e, w', s') \<Rightarrow> (Crashed e, w', s'))"

definition worker_init :: "shared \<Rightarrow> worker" where
  "worker_init s = \<lparr>api_handler = create_api_handler (key_manager s), consecutive_errors = 0\<rparr>"

definition worker_task :: "string \<Rightarrow> env list \<Rightarrow> shared \<Rightarrow> exit \<times> worker \<times> shared" where
  "worker_task output_dir evs s = worker_loop output_dir evs (worker_init s) s"

subsection \<open>The dispatcher\<close>

text \<open>
  Lines 237-246: the seeding loop over the (already shuffled) requests, with the
  queue and \<^verbatim>\<open>no_of_skipped\<close> as accumulators.
\<close>

fun seed_queue ::
  "string \<Rightarrow> (string \<rightharpoonup> result) \<Rightarrow> request list \<Rightarrow> Queue \<Rightarrow> nat \<Rightarrow> Queue \<times> nat" where
  "seed_queue output_dir fs [] q no_of_skipped = (q, no_of_skipped)"
| "seed_queue output_dir fs (req # reqs) q no_of_skipped =
     (if fs (generated_response_file output_dir req) = None
      then seed_queue output_dir fs reqs (put q (Some req)) no_of_skipped
      else seed_queue output_dir fs reqs q (no_of_skipped + 1))"

definition num_workers :: nat where
  "num_workers = 3"

text \<open>
  A run of the script after seeding: the worker threads take turns, one whole
  iteration at a time, in an order given by a schedule; at some point the dispatcher
  (after \<^verbatim>\<open>join\<close>, or on a keyboard interrupt) puts one stop signal per worker.
  A worker that has left its loop takes no further turn.
\<close>

datatype action = Turn nat env | Shutdown

fun run_workers ::
  "string \<Rightarrow> action list \<Rightarrow> (control \<times> worker) list \<Rightarrow> shared \<Rightarrow> (control \<times> worker) list \<times> shared" where
  "run_workers output_dir [] ws s = (ws, s)"
| "run_workers output_dir (Turn i ev # sched) ws s =
     (if i < length ws \<and> fst (ws ! i) = Continue
      then case worker_iteration output_dir ev (snd (ws ! i)) s of
             (c, w', s') \<Rightarrow> run_workers output_dir sched (ws[i := (c, w')]) s'
      else run_workers output_dir sched ws s)"
| "run_workers output_dir (Shutdown # sched) ws s =
     run_workers output_dir sched ws ((q_put None ^^ num_workers) s)"

definition dispatcher ::
  "string \<Rightarrow> string list \<Rightarrow> request list \<Rightarrow> (string \<rightharpoonup> result) \<Rightarrow> action list \<Rightarrow>
     py_error + (nat \<times> (control \<times> worker) list \<times> shared)" where
  "dispatcher output_dir keys api_requests fs sched =
     (case seed_queue output_dir fs api_requests Queue_init 0 of
        (q, no_of_skipped) \<Rightarrow>
          (case APIKeyManager_init keys of
             Inl e \<Rightarrow> Inl e
           | Inr km \<Rightarrow>
               let s = \<lparr>request_queue = q, key_manager = km, files = fs,
                        completed_counter = 0, trace = []\<rparr>
               in Inr (no_of_skipped,
                       run_workers output_dir sched
                         (replicate num_workers (Continue, worker_init s)) s)))"

subsection \<open>Vocabulary of the properties\<close>

text \<open>
  The message of the exception that ends a processing attempt, if any; whether it is
  a quota failure (the message contains one of \<^verbatim>\<open>possible_errors\<close>) or another
  failure.
\<close>

definition attempt_error :: "attempt \<Rightarrow> string option" where
  "attempt_error a =
     (case a of
        ImageOpenFails m \<Rightarrow> Some m
      | ApiFails m \<Rightarrow> Some m
      | WriteFails _ m \<Rightarrow> Some m
      | Succeeds _ \<Rightarrow> None)"

definition quota_failure :: "env \<Rightarrow> bool" where
  "quota_failure ev =
     (case attempt_error (attempt ev) of None \<Rightarrow> False | Some msg \<Rightarrow> quota_exceeded msg)"

definition other_failure :: "env \<Rightarrow> bool" where
  "other_failure ev =
     (case attempt_error (attempt ev) of None \<Rightarrow> False | Some msg \<Rightarrow> \<not> quota_exceeded msg)"

text \<open>
  A queue is pending when it holds requests only (no stop signal) and none of them has
  a response file yet.
\<close>

definition unprocessed :: "string \<Rightarrow> (string \<rightharpoonup> result) \<Rightarrow> request option \<Rightarrow> bool" where
  "unprocessed d fs x =
     (case x of None \<Rightarrow> False | Some r \<Rightarrow> fs (generated_response_file d r) = None)"

definition pending :: "string \<Rightarrow> shared \<Rightarrow> bool" where
  "pending d s = list_all (unprocessed d (files s)) (items (request_queue s))"

text \<open>The API call that an attempt adds to the trace, unless the image did not open.\<close>

definition attempt_events :: "worker \<Rightarrow> request \<Rightarrow> attempt \<Rightarrow> event list" where
  "attempt_events w req a = (if api_invoked a then [ApiCall (api_handler w) req] else [])"

text \<open>
  The values that \<^verbatim>\<open>unfinished_tasks\<close> takes along a piece of trace, starting
  from \<open>u\<close>: one value after each \<^verbatim>\<open>put\<close> and each \<^verbatim>\<open>task_done\<close>.
\<close>

fun unfinished_history :: "nat \<Rightarrow> event list \<Rightarrow> nat list" where
  "unfinished_history u [] = []"
| "unfinished_history u (Put x # es) = (u + 1) # unfinished_history (u + 1) es"
| "unfinished_history u (TaskDone # es) = (u - 1) # unfinished_history (u - 1) es"
| "unfinished_history u (e # es) = unfinished_history u es"

text \<open>Concrete requests, environments and states for the examples.\<close>

definition example_request :: "string \<Rightarrow> string \<Rightarrow> request" where
  "example_request iid path =
     \<lparr>image_id = iid, image_path = path, prompt = ''Describe the image.'',
      image_primary_label = Some ''clinical'', image_secondary_label = None\<rparr>"

definition example_env :: "attempt \<Rightarrow> env" where
  "example_env a = \<lparr>attempt = a, backoff_draw = 0, courtesy_draw = 0\<rparr>"

definition example_state :: "request option list \<Rightarrow> shared" where
  "example_state xs =
     \<lparr>request_queue = \<lparr>items = xs, unfinished_tasks = length xs\<rparr>,
      key_manager = \<lparr>api_keys = [''k1'', ''k2''], api_key = ''k1'', key_index = 0,
                      model_name = ''gemini-2.0-flash''\<rparr>,
      files = Map.empty, completed_counter = 0, trace = []\<rparr>"

text \<open>
  Observers of a trace: how many items were dequeued, how many times
  \<^verbatim>\<open>task_done\<close> was called, and the requests the API was called for.
\<close>

definition dequeued :: "event list \<Rightarrow> nat" where
  "dequeued tr = length (filter (\<lambda>e. case e of Get _ \<Rightarrow> True | _ \<Rightarrow> False) tr)"

definition acknowledged :: "event list \<Rightarrow> nat" where
  "acknowledged tr = count_list tr TaskDone"

definition api_calls :: "event list \<Rightarrow> request list" where
  "api_calls tr = concat (map (\<lambda>e. case e of ApiCall _ r \<Rightarrow> [r] | _ \<Rightarrow> []) tr)"

text \<open>How the loop ended, as the control that ended its last iteration.\<close>

definition control_of :: "exit \<Rightarrow> control" where
  "control_of x = (case x of Running \<Rightarrow> Continue | Stopped \<Rightarrow> Break | Crashed e \<Rightarrow> Raise e)"

text \<open>
  The bounds on the two sleeps. \<open>sleep_half_open\<close> has the half-open intervals
  \<open>[4, 8)\<close> and \<open>[0.05, 0.10)\<close>; \<open>sleep_within\<close> has the closed intervals between
  the floats \<open>4\<close> and \<open>8\<close>, and between the floats nearest to \<open>0.05\<close> and to
  \<open>0.1\<close> (the latter is twice the former).
\<close>

definition sleep_half_open :: "event \<Rightarrow> bool" where
  "sleep_half_open e =
     (case e of
        BackoffSleep d \<Rightarrow> 4 \<le> float_val d \<and> float_val d < 8
      | CourtesySleep d \<Rightarrow> 1 / 20 \<le> float_val d \<and> float_val d < 1 / 10
      | _ \<Rightarrow> True)"

definition sleep_within :: "event \<Rightarrow> bool" where
  "sleep_within e =
     (case e of
        BackoffSleep d \<Rightarrow> 4 \<le> float_val d \<and> float_val d \<le> 8
      | CourtesySleep d \<Rightarrow>
          float_val float_0_05 \<le> float_val d \<and> float_val d \<le> 2 * float_val float_0_05
      | _ \<Rightarrow> True)"

text \<open>Both draws of an iteration are values that \<^verbatim>\<open>random.random()\<close> can return.\<close>

definition draws_in_range :: "env \<Rightarrow> bool" where
  "draws_in_range ev = (backoff_draw ev < 2 ^ 53 \<and> courtesy_draw ev < 2 ^ 53)"

definition sleeps_ok :: "shared \<Rightarrow> bool" where
  "sleeps_ok s = list_all sleep_within (trace s)"

text \<open>
  The invariant of a run that started with the response files \<open>fs\<close>: they are all
  still there, and no API call was made for a request that had one.
\<close>

definition results_kept :: "(string \<rightharpoonup> result) \<Rightarrow> string \<Rightarrow> shared \<Rightarrow> bool" where
  "results_kept fs d s =
     (dom fs \<subseteq> dom (files s) \<and>
      list_all (\<lambda>r. fs (generated_response_file d r) = None) (api_calls (trace s)))"

section \<open>Properties\<close>

subsection \<open>Strings\<close>

lemma startswith_iff: "startswith s p \<longleftrightarrow> (\<exists>t. s = p @ t)"
  by (induction s p rule: startswith.induct) auto

lemma str_in_iff: "str_in p s \<longleftrightarrow> (\<exists>a b. s = a @ p @ b)"
proof (induction s)
  case Nil
  then show ?case by auto
next
  case (Cons c s)
  show ?case
  proof
    assume "str_in p (c # s)"
    then consider "startswith (c # s) p" | "str_in p s" by auto
    then show "\<exists>a b. c # s = a @ p @ b"
    proof cases
      case 1
      then obtain t where "c # s = p @ t" by (auto simp: startswith_iff)
      then have "c # s = [] @ p @ t" by simp
      then show ?thesis by blast
    next
      case 2
      then obtain a b where "s = a @ p @ b" using Cons.IH by auto
      then have "c # s = (c # a) @ p @ b" by simp
      then show ?thesis by blast
    qed
  next
    assume "\<exists>a b. c # s = a @ p @ b"
    then obtain a b where ab: "c # s = a @ p @ b" by auto
    show "str_in p (c # s)"
    proof (cases a)
      case Nil
      with ab have "startswith (c # s) p" by (auto simp: startswith_iff)
      then show ?thesis by simp
    next
      case (Cons d a')
      with ab have "s = a' @ p @ b" by simp
      then have "str_in p s" using Cons.IH by blast
      then show ?thesis by simp
    qed
  qed
qed

subsection \<open>Rounding to 53 bits\<close>

text \<open>
  Rounding never crosses a float: a bound that is itself a float with a 53-bit
  significand stays a bound after rounding.
\<close>

lemma bitlength_0 [simp]: "bitlength 0 = 0"
  by (subst bitlength.simps) simp

lemma bitlength_bounds: "n < 2 ^ bitlength n \<and> (n \<noteq> 0 \<longrightarrow> 2 ^ (bitlength n - 1) \<le> n)"
proof (induction n rule: bitlength.induct)
  case (1 n)
  show ?case
  proof (cases "n = 0")
    case True
    then show ?thesis by simp
  next
    case False
    then have bl: "bitlength n = Suc (bitlength (n div 2))"
      by (subst bitlength.simps) simp
    from 1 False have ih: "n div 2 < 2 ^ bitlength (n div 2)"
      and ih2: "n div 2 \<noteq> 0 \<longrightarrow> 2 ^ (bitlength (n div 2) - 1) \<le> n div 2"
      by simp_all
    have up: "n < 2 ^ bitlength n"
      using ih unfolding bl by simp
    have lo: "2 ^ (bitlength n - 1) \<le> n"
    proof (cases "n div 2 = 0")
      case True
      then have "bitlength (n div 2) = 0" by simp
      with False show ?thesis unfolding bl by simp
    next
      case nz: False
      then have "bitlength (n div 2) \<noteq> 0" by (subst bitlength.simps) simp
      then obtain b where b: "bitlength (n div 2) = Suc b" by (cases "bitlength (n div 2)") auto
      with ih2 nz have "2 ^ b \<le> n div 2" by simp
      then have "2 * 2 ^ b \<le> n" by simp
      then show ?thesis unfolding bl b by simp
    qed
    from up lo show ?thesis by simp
  qed
qed

lemma bitlength_eq:
  assumes "2 ^ k \<le> n" and "n < 2 ^ Suc k"
  shows "bitlength n = Suc k"
proof -
  have nz: "n \<noteq> 0" using assms(1) by (metis not_less power_eq_0_iff zero_neq_numeral le_zero_eq)
  from bitlength_bounds [of n] nz have a: "n < 2 ^ bitlength n" and b: "2 ^ (bitlength n - 1) \<le> n"
    by simp_all
  from assms(1) a have "(2::nat) ^ k < 2 ^ bitlength n" by (rule le_less_trans)
  then have 1: "k < bitlength n" by (rule power_less_imp_less_exp [rotated]) simp
  from b assms(2) have "(2::nat) ^ (bitlength n - 1) < 2 ^ Suc k" by (rule le_less_trans)
  then have 2: "bitlength n - 1 < Suc k" by (rule power_less_imp_less_exp [rotated]) simp
  from 1 2 show ?thesis by simp
qed

lemma bitlength_small: "n < 2 ^ k \<Longrightarrow> bitlength n \<le> k"
proof -
  assume "n < 2 ^ k"
  show ?thesis
  proof (cases "n = 0")
    case True then show ?thesis by simp
  next
    case False
    with bitlength_bounds [of n] have "2 ^ (bitlength n - 1) \<le> n" by simp
    with \<open>n < 2 ^ k\<close> have "(2::nat) ^ (bitlength n - 1) < 2 ^ k" by linarith
    then have "bitlength n - 1 < k" by (rule power_less_imp_less_exp [rotated]) simp
    then show ?thesis by simp
  qed
qed

lemma round_half_even_ge: "n div 2 ^ s \<le> round_half_even n s"
  by (simp add: round_half_even_def Let_def)

lemma round_half_even_le: "round_half_even n s \<le> n div 2 ^ s + 1"
  by (simp add: round_half_even_def Let_def)

lemma round_half_even_exact: "n mod 2 ^ s = 0 \<Longrightarrow> round_half_even n s = n div 2 ^ s"
  by (simp add: round_half_even_def Let_def)

lemma leading_digits:
  assumes "0 < bitlength n - 53"
  shows "2 ^ 52 * 2 ^ (bitlength n - 53) \<le> (n div 2 ^ (bitlength n - 53)) * 2 ^ (bitlength n - 53)"
proof -
  let ?s = "bitlength n - 53"
  have bl: "bitlength n - 1 = 52 + ?s" using assms by simp
  have "n \<noteq> 0" using assms by (auto intro: ccontr)
  with bitlength_bounds [of n] have "2 ^ (bitlength n - 1) \<le> n" by blast
  then have "2 ^ (52 + ?s) \<le> n" unfolding bl .
  then have "(2::nat) ^ 52 * 2 ^ ?s \<le> n" by (simp add: power_add)
  then have "(2::nat) ^ 52 \<le> n div 2 ^ ?s"
    by (simp add: less_eq_div_iff_mult_less_eq)
  then show ?thesis by simp
qed

lemma round_lower:
  assumes "m * 2 ^ t \<le> n" and "m < 2 ^ 53"
  shows "m * 2 ^ t \<le> round_half_even n (bitlength n - 53) * 2 ^ (bitlength n - 53)"
proof -
  let ?s = "bitlength n - 53"
  let ?f = "n div 2 ^ ?s"
  have "m * 2 ^ t \<le> ?f * 2 ^ ?s"
  proof (cases "?s = 0")
    case True
    then show ?thesis using assms(1) by simp
  next
    case False
    then have lead: "2 ^ 52 * 2 ^ ?s \<le> ?f * 2 ^ ?s" using leading_digits [of n] by simp
    show ?thesis
    proof (cases "?s \<le> t")
      case True
      then obtain d where t: "t = d + ?s" by (metis le_add_diff_inverse2)
      have "m * 2 ^ d * 2 ^ ?s \<le> n"
        using assms(1) unfolding t by (simp add: power_add mult.assoc)
      then have "m * 2 ^ d \<le> ?f"
        by (simp add: less_eq_div_iff_mult_less_eq)
      then have "m * 2 ^ d * 2 ^ ?s \<le> ?f * 2 ^ ?s" by simp
      then show ?thesis unfolding t by (simp add: power_add mult.assoc)
    next
      case False
      then have "Suc t \<le> ?s" by simp
      then have "(2::nat) ^ Suc t \<le> 2 ^ ?s" by (rule power_increasing) simp
      then have "(2::nat) ^ 52 * 2 ^ Suc t \<le> 2 ^ 52 * 2 ^ ?s" by simp
      moreover have "m * 2 ^ t \<le> 2 ^ 53 * 2 ^ t" using assms(2) by simp
      moreover have "(2::nat) ^ 53 * 2 ^ t = 2 ^ 52 * 2 ^ Suc t" by simp
      ultimately show ?thesis using lead by linarith
    qed
  qed
  also have "\<dots> \<le> round_half_even n ?s * 2 ^ ?s"
    using round_half_even_ge [of n ?s] by simp
  finally show ?thesis .
qed

lemma round_upper:
  assumes "n \<le> m * 2 ^ t" and "m < 2 ^ 53"
  shows "round_half_even n (bitlength n - 53) * 2 ^ (bitlength n - 53) \<le> m * 2 ^ t"
proof -
  let ?s = "bitlength n - 53"
  let ?f = "n div 2 ^ ?s"
  let ?r = "n mod 2 ^ ?s"
  have n: "n = ?f * 2 ^ ?s + ?r" by (simp only: div_mult_mod_eq)
  show ?thesis
  proof (cases "?r = 0")
    case True
    then have "round_half_even n ?s * 2 ^ ?s = n"
      using n by (simp add: round_half_even_exact)
    then show ?thesis using assms(1) by simp
  next
    case False
    then have s: "?s \<noteq> 0" by (auto intro: ccontr)
    then have lead: "2 ^ 52 * 2 ^ ?s \<le> ?f * 2 ^ ?s" using leading_digits [of n] by simp
    have gt: "?f * 2 ^ ?s < m * 2 ^ t" using n False assms(1) by linarith
    have "(?f + 1) * 2 ^ ?s \<le> m * 2 ^ t"
    proof (cases "?s \<le> t")
      case True
      then obtain d where t: "t = d + ?s" by (metis le_add_diff_inverse2)
      have "?f * 2 ^ ?s < m * 2 ^ d * 2 ^ ?s"
        using gt unfolding t by (simp add: power_add mult.assoc)
      then have "?f < m * 2 ^ d" by simp
      then have "?f + 1 \<le> m * 2 ^ d" by simp
      then have "(?f + 1) * 2 ^ ?s \<le> m * 2 ^ d * 2 ^ ?s"
        by (rule mult_le_mono1)
      then show ?thesis unfolding t by (simp add: power_add mult.assoc)
    next
      case False
      then have "Suc t \<le> ?s" by simp
      then have "(2::nat) ^ Suc t \<le> 2 ^ ?s" by (rule power_increasing) simp
      then have "(2::nat) ^ 52 * 2 ^ Suc t \<le> 2 ^ 52 * 2 ^ ?s" by simp
      moreover have "m * 2 ^ t \<le> 2 ^ 53 * 2 ^ t" using assms(2) by simp
      moreover have "(2::nat) ^ 53 * 2 ^ t = 2 ^ 52 * 2 ^ Suc t" by simp
      ultimately have "m * 2 ^ t \<le> ?f * 2 ^ ?s" using lead by linarith
      with gt show ?thesis by simp
    qed
    moreover have "round_half_even n ?s * 2 ^ ?s \<le> (?f + 1) * 2 ^ ?s"
      using round_half_even_le [of n ?s] by (simp del: mult_Suc add: mult_le_mono1)
    ultimately show ?thesis by (rule order_trans [rotated])
  qed
qed

lemma float_val_powi: "float_val (Float m e) = of_nat m * 2 powi e"
proof (cases "0 \<le> e")
  case True
  then show ?thesis by (simp only: float_val.simps power_int_def if_True)
next
  case False
  then show ?thesis
    by (simp only: float_val.simps power_int_def if_False divide_inverse power_inverse)
qed

lemma powi_shift: "(2::rat) powi (e + int s) = 2 ^ s * 2 powi e"
proof -
  have "(2::rat) powi (e + int s) = 2 powi e * 2 powi (int s)"
    by (rule power_int_add) simp
  also have "(2::rat) powi (int s) = 2 ^ s" by (rule power_int_of_nat)
  finally show ?thesis by (simp only: mult.commute)
qed

lemma powi_pos: "(0::rat) < 2 powi e"
  by (rule zero_less_power_int) simp

lemma float_val_round53:
  "float_val (round53 n e) =
     of_nat (round_half_even n (bitlength n - 53) * 2 ^ (bitlength n - 53)) * 2 powi e"
  by (simp only: round53_def Let_def float_val_powi powi_shift of_nat_mult of_nat_power
      of_nat_numeral mult.assoc)

lemma round53_between:
  assumes "ma * 2 ^ ta \<le> n" and "ma < 2 ^ 53" and "n \<le> mb * 2 ^ tb" and "mb < 2 ^ 53"
  shows "of_nat (ma * 2 ^ ta) * 2 powi e \<le> float_val (round53 n e)"
    and "float_val (round53 n e) \<le> of_nat (mb * 2 ^ tb) * 2 powi e"
proof -
  let ?v = "round_half_even n (bitlength n - 53) * 2 ^ (bitlength n - 53)"
  note p = powi_pos [of e]
  have "ma * 2 ^ ta \<le> ?v" using assms(1,2) by (rule round_lower)
  then have "(of_nat (ma * 2 ^ ta) :: rat) \<le> of_nat ?v" by (rule of_nat_mono)
  then show "of_nat (ma * 2 ^ ta) * 2 powi e \<le> float_val (round53 n e)"
    unfolding float_val_round53 using p by (simp only: mult_le_cancel_right_pos)
  have "?v \<le> mb * 2 ^ tb" using assms(3,4) by (rule round_upper)
  then have "(of_nat ?v :: rat) \<le> of_nat (mb * 2 ^ tb)" by (rule of_nat_mono)
  then show "float_val (round53 n e) \<le> of_nat (mb * 2 ^ tb) * 2 powi e"
    unfolding float_val_round53 using p by (simp only: mult_le_cancel_right_pos)
qed

lemma float_add_exact:
  "of_nat (m1 * 2 ^ nat (e1 - min e1 e2) + m2 * 2 ^ nat (e2 - min e1 e2)) * (2::rat) powi (min e1 e2) =
     float_val (Float m1 e1) + float_val (Float m2 e2)"
proof -
  let ?e = "min e1 e2"
  have i1: "?e + int (nat (e1 - ?e)) = e1" and i2: "?e + int (nat (e2 - ?e)) = e2"
    by simp_all
  have 1: "(2::rat) ^ nat (e1 - ?e) * 2 powi ?e = 2 powi e1"
    using powi_shift [of ?e "nat (e1 - ?e)"] by (simp only: i1)
  have 2: "(2::rat) ^ nat (e2 - ?e) * 2 powi ?e = 2 powi e2"
    using powi_shift [of ?e "nat (e2 - ?e)"] by (simp only: i2)
  have "of_nat (m1 * 2 ^ nat (e1 - ?e) + m2 * 2 ^ nat (e2 - ?e)) * (2::rat) powi ?e =
      of_nat m1 * (2 ^ nat (e1 - ?e) * 2 powi ?e) + of_nat m2 * (2 ^ nat (e2 - ?e) * 2 powi ?e)"
    by (simp only: of_nat_add of_nat_mult of_nat_power of_nat_numeral distrib_right mult.assoc)
  then show ?thesis unfolding 1 2 float_val_powi .
qed

lemma float_add_between:
  assumes "ma < 2 ^ 53" and "mb < 2 ^ 53"
    and lo: "of_nat ma * 2 powi (e1 + int ta) \<le> float_val (Float m1 e1) + float_val y"
    and hi: "float_val (Float m1 e1) + float_val y \<le> of_nat mb * 2 powi (e1 + int tb)"
  shows "of_nat ma * 2 powi (e1 + int ta) \<le> float_val (float_add (Float m1 e1) y)"
    and "float_val (float_add (Float m1 e1) y) \<le> of_nat mb * 2 powi (e1 + int tb)"
proof -
  obtain m2 e2 where y: "y = Float m2 e2" by (cases y)
  let ?e = "min e1 e2"
  let ?d = "nat (e1 - ?e)"
  let ?n = "m1 * 2 ^ ?d + m2 * 2 ^ nat (e2 - ?e)"
  note p = powi_pos [of ?e]
  have add: "float_add (Float m1 e1) y = round53 ?n ?e"
    by (simp only: y float_add.simps Let_def)
  have sc: "(2::rat) powi (e1 + int t) = 2 ^ (t + ?d) * 2 powi ?e" for t
  proof -
    have "e1 + int t = ?e + int (t + ?d)" by simp
    then show ?thesis by (simp only: powi_shift)
  qed
  have a: "of_nat (ma * 2 ^ (ta + ?d)) * (2::rat) powi ?e = of_nat ma * 2 powi (e1 + int ta)"
    by (simp only: sc of_nat_mult of_nat_power of_nat_numeral mult.assoc)
  have b: "of_nat (mb * 2 ^ (tb + ?d)) * (2::rat) powi ?e = of_nat mb * 2 powi (e1 + int tb)"
    by (simp only: sc of_nat_mult of_nat_power of_nat_numeral mult.assoc)
  have "of_nat (ma * 2 ^ (ta + ?d)) * (2::rat) powi ?e \<le> of_nat ?n * 2 powi ?e"
    using lo unfolding a y float_add_exact .
  then have "(of_nat (ma * 2 ^ (ta + ?d)) :: rat) \<le> of_nat ?n"
    using p by (simp only: mult_le_cancel_right_pos)
  then have lo': "ma * 2 ^ (ta + ?d) \<le> ?n" by (simp only: of_nat_le_iff)
  have "of_nat ?n * 2 powi ?e \<le> of_nat (mb * 2 ^ (tb + ?d)) * (2::rat) powi ?e"
    using hi unfolding b y float_add_exact .
  then have "(of_nat ?n :: rat) \<le> of_nat (mb * 2 ^ (tb + ?d))"
    using p by (simp only: mult_le_cancel_right_pos)
  then have hi': "?n \<le> mb * 2 ^ (tb + ?d)" by (simp only: of_nat_le_iff)
  note r = round53_between [OF lo' assms(1) hi' assms(2), of ?e, unfolded a b, folded add]
  show "of_nat ma * 2 powi (e1 + int ta) \<le> float_val (float_add (Float m1 e1) y)"
    by (rule r(1))
  show "float_val (float_add (Float m1 e1) y) \<le> of_nat mb * 2 powi (e1 + int tb)"
    by (rule r(2))
qed

lemma float_mul_between:
  assumes "m1 * m2 \<le> mb * 2 ^ tb" and "mb < 2 ^ 53"
  shows "0 \<le> float_val (float_mul (Float m1 e1) (Float m2 e2))"
    and "float_val (float_mul (Float m1 e1) (Float m2 e2)) \<le> of_nat mb * 2 powi (e1 + e2 + int tb)"
proof -
  have z: "0 * 2 ^ 0 \<le> m1 * m2" and z': "(0::nat) < 2 ^ 53" by simp_all
  note r = round53_between [OF z z' assms, of "e1 + e2"]
  have mul: "float_mul (Float m1 e1) (Float m2 e2) = round53 (m1 * m2) (e1 + e2)"
    by (simp only: float_mul.simps)
  have "(of_nat (0 * 2 ^ 0) :: rat) * 2 powi (e1 + e2) = 0" by simp
  with r(1) show "0 \<le> float_val (float_mul (Float m1 e1) (Float m2 e2))"
    unfolding mul by (simp only:)
  have "(of_nat (mb * 2 ^ tb) :: rat) * 2 powi (e1 + e2) = of_nat mb * 2 powi (e1 + e2 + int tb)"
    by (simp only: powi_shift of_nat_mult of_nat_power of_nat_numeral mult.assoc)
  with r(2) show "float_val (float_mul (Float m1 e1) (Float m2 e2)) \<le>
      of_nat mb * 2 powi (e1 + e2 + int tb)"
    unfolding mul by (simp only:)
qed

lemma powi_2: "(2::rat) powi 2 = 4" and powi_3: "(2::rat) powi 3 = 8" and powi_0: "(2::rat) powi 0 = 1"
  by (simp_all add: power_int_def)

lemma backoff_delay_bounds:
  assumes "k < 2 ^ 53"
  shows "4 \<le> float_val (backoff_delay k)" and "float_val (backoff_delay k) \<le> 8"
proof -
  let ?p = "float_mul (Float 4 0) (Float k (- 53))"
  have le: "4 * k \<le> 1 * 2 ^ 55" using assms by simp
  have one: "(1::nat) < 2 ^ 53" by simp
  note m = float_mul_between [OF le one, of 0 "- 53"]
  have "(0::int) + - 53 + int 55 = 2" by simp
  then have "(of_nat 1 :: rat) * 2 powi (0 + - 53 + int 55) = 4"
    by (simp only: powi_2 of_nat_1 mult_1)
  with m(2) have up: "float_val ?p \<le> 4" by (simp only:)
  have four: "float_val (Float 4 0) = 4"
    by (simp only: float_val_powi powi_0 of_nat_numeral mult_1_right)
  have a: "(of_nat 1 :: rat) * 2 powi (0 + int 2) = 4"
    by (simp add: powi_2)
  have b: "(of_nat 1 :: rat) * 2 powi (0 + int 3) = 8"
    by (simp add: powi_3)
  have lo: "of_nat 1 * 2 powi (0 + int 2) \<le> float_val (Float 4 0) + float_val ?p"
    unfolding a four using m(1) by simp
  have hi: "float_val (Float 4 0) + float_val ?p \<le> of_nat 1 * 2 powi (0 + int 3)"
    unfolding b four using up by simp
  note r = float_add_between [OF one one lo hi, unfolded a b]
  show "4 \<le> float_val (backoff_delay k)"
    unfolding backoff_delay_def random_random_def by (rule r(1))
  show "float_val (backoff_delay k) \<le> 8"
    unfolding backoff_delay_def random_random_def by (rule r(2))
qed

lemma courtesy_delay_bounds:
  assumes "k < 2 ^ 53"
  shows "float_val float_0_05 \<le> float_val (courtesy_delay k)"
    and "float_val (courtesy_delay k) \<le> 2 * float_val float_0_05"
proof -
  let ?C = "7205759403792794 :: nat"
  let ?p = "float_mul (Float ?C (- 57)) (Float k (- 53))"
  let ?c = "float_val (Float ?C (- 57))"
  have le: "?C * k \<le> ?C * 2 ^ 53" using assms by simp
  have C: "?C < 2 ^ 53" by simp
  note m = float_mul_between [OF le C, of "- 57" "- 53"]
  have "- 57 + - 53 + int 53 = (- 57 :: int)" by simp
  then have "(of_nat ?C :: rat) * 2 powi (- 57 + - 53 + int 53) = ?c"
    by (simp only: float_val_powi)
  with m(2) have up: "float_val ?p \<le> ?c" by (simp only:)
  have a: "(of_nat ?C :: rat) * 2 powi (- 57 + int 0) = ?c"
    by (simp only: float_val_powi int_ops add_0_right)
  have "(of_nat ?C :: rat) * 2 powi (- 57 + int 1) = of_nat ?C * (2 ^ 1 * 2 powi (- 57))"
    by (simp only: powi_shift)
  also have "\<dots> = 2 * ?c"
    by (simp only: float_val_powi power_one_right mult.left_commute)
  finally have b: "(of_nat ?C :: rat) * 2 powi (- 57 + int 1) = 2 * ?c" .
  have lo: "of_nat ?C * 2 powi (- 57 + int 0) \<le> ?c + float_val ?p"
    unfolding a using m(1) by simp
  have hi: "?c + float_val ?p \<le> of_nat ?C * 2 powi (- 57 + int 1)"
    unfolding b using up by simp
  note r = float_add_between [OF C C lo hi, unfolded a b]
  show "float_val float_0_05 \<le> float_val (courtesy_delay k)"
    unfolding courtesy_delay_def random_random_def float_0_05_def by (rule r(1))
  show "float_val (courtesy_delay k) \<le> 2 * float_val float_0_05"
    unfolding courtesy_delay_def random_random_def float_0_05_def by (rule r(2))
qed

lemma round53_small: "n < 2 ^ 53 \<Longrightarrow> round53 n e = Float n e"
proof -
  assume "n < 2 ^ 53"
  then have "bitlength n \<le> 53" by (rule bitlength_small)
  then have "bitlength n - 53 = 0" by simp
  then show ?thesis by (simp add: round53_def round_half_even_def)
qed

lemma backoff_delay_top: "backoff_delay 9007199254740991 = Float 9007199254740992 (- 50)"
proof -
  have b1: "bitlength 36028797018963964 = Suc 54"
    by (rule bitlength_eq) simp_all
  have m: "float_mul (Float 4 0) (Float 9007199254740991 (- 53)) = Float 9007199254740991 (- 51)"
    by (simp add: round53_def b1 round_half_even_def)
  have b2: "bitlength 18014398509481983 = Suc 53"
    by (rule bitlength_eq) simp_all
  have a: "float_add (Float 4 0) (Float 9007199254740991 (- 51)) = Float 9007199254740992 (- 50)"
    by (simp add: round53_def b2 round_half_even_def)
  show ?thesis
    by (simp only: backoff_delay_def random_random_def m a)
qed

lemma backoff_delay_top_val: "float_val (backoff_delay 9007199254740991) = 8"
  unfolding backoff_delay_top by simp

lemma courtesy_delay_top: "courtesy_delay 9007199254740991 = Float 7205759403792794 (- 56)"
proof -
  have b1: "bitlength 64903710731685341753751502218854 = Suc 105"
    by (rule bitlength_eq) simp_all
  have m: "float_mul (Float 7205759403792794 (- 57)) (Float 9007199254740991 (- 53)) =
      Float 7205759403792793 (- 57)"
    by (simp add: round53_def b1 round_half_even_def)
  have b2: "bitlength 14411518807585587 = Suc 53"
    by (rule bitlength_eq) simp_all
  have a: "float_add (Float 7205759403792794 (- 57)) (Float 7205759403792793 (- 57)) =
      Float 7205759403792794 (- 56)"
    by (simp add: round53_def b2 round_half_even_def)
  show ?thesis
    by (simp only: courtesy_delay_def random_random_def float_0_05_def m a)
qed

lemma sleeps_top:
  "(9007199254740991::nat) < 2 ^ 53
   \<and> \<not> float_val (backoff_delay 9007199254740991) < 8
   \<and> \<not> float_val (courtesy_delay 9007199254740991) < 1 / 10"
  unfolding backoff_delay_top courtesy_delay_top by simp

lemma float_0_05_val: "float_val float_0_05 = 3602879701896397 / 72057594037927936"
  by (simp add: float_0_05_def)

lemma float_0_05_nearest:
  "\<bar>float_val float_0_05 - 1 / 20\<bar> \<le> 1 / 2 ^ 58"
  by (simp add: float_0_05_def)

subsection \<open>Round-robin key selection\<close>

lemma next_keys_general:
  assumes "api_keys km \<noteq> []" and "key_index km < length (api_keys km)"
  shows "next_keys n km =
           Inr (map (\<lambda>i. api_keys km ! ((key_index km + i) mod length (api_keys km))) [0..<n],
                km\<lparr>key_index := (key_index km + n) mod length (api_keys km)\<rparr>)"
  using assms
proof (induction n arbitrary: km)
  case 0
  then show ?case by simp
next
  case (Suc n)
  let ?L = "length (api_keys km)"
  let ?km' = "km\<lparr>key_index := Suc (key_index km) mod ?L\<rparr>"
  have L: "0 < ?L" using Suc.prems by simp
  have g: "get_next_api_key km = Inr (api_keys km ! key_index km, ?km')"
    using Suc.prems by (simp add: get_next_api_key_def)
  have idx: "\<And>i. (Suc (key_index km) mod ?L + i) mod ?L = (key_index km + Suc i) mod ?L"
    by (simp add: mod_add_left_eq)
  have ih: "next_keys n ?km' =
      Inr (map (\<lambda>i. api_keys km ! ((key_index km + Suc i) mod ?L)) [0..<n],
           km\<lparr>key_index := (key_index km + Suc n) mod ?L\<rparr>)"
    using Suc.IH [of ?km'] Suc.prems L by (simp add: idx)
  have m: "map (\<lambda>i. api_keys km ! ((key_index km + i) mod ?L)) [0..<Suc n] =
           api_keys km ! key_index km #
           map (\<lambda>i. api_keys km ! ((key_index km + Suc i) mod ?L)) [0..<n]"
    using Suc.prems by (simp add: upt_conv_Cons map_Suc_upt [symmetric] del: upt_Suc)
  have "next_keys (Suc n) km =
      Inr (api_keys km ! key_index km #
             map (\<lambda>i. api_keys km ! ((key_index km + Suc i) mod ?L)) [0..<n],
           km\<lparr>key_index := (key_index km + Suc n) mod ?L\<rparr>)"
    by (simp only: next_keys.simps g ih sum.case prod.case)
  then show ?case
    by (simp only: m)
qed

text \<open>
  C8. For a pool built from \<open>n\<close> keys (cursor at 0), the \<open>i\<close>-th call of
  \<^verbatim>\<open>get_next_api_key\<close> (counting from 1) returns the key at index
  \<open>(i - 1) mod n\<close>; \<open>n\<close> calls in a row return the keys of the list, each position
  once and in order, and the call after them returns the first key again.
\<close>

theorem get_next_api_key_round_robin:
  assumes "APIKeyManager_init keys = Inr km"
  shows "(\<forall>i. 0 < i \<longrightarrow>
            (\<exists>ks km'. next_keys i km = Inr (ks, km') \<and> length ks = i \<and>
                       last ks = keys ! ((i - 1) mod length keys)))
       \<and> (\<exists>km'. next_keys (length keys) km = Inr (keys, km') \<and>
                 (\<exists>km''. get_next_api_key km' = Inr (keys ! 0, km'')))"
proof -
  from assms have ne: "keys \<noteq> []" and km: "api_keys km = keys" "key_index km = 0"
    by (auto simp: APIKeyManager_init_def split: list.splits)
  have L: "0 < length keys" using ne by simp
  have gen: "\<And>n. next_keys n km =
      Inr (map (\<lambda>i. keys ! (i mod length keys)) [0..<n],
           km\<lparr>key_index := n mod length keys\<rparr>)"
    using next_keys_general [of km] ne km L by simp
  have part1: "\<forall>i. 0 < i \<longrightarrow>
            (\<exists>ks km'. next_keys i km = Inr (ks, km') \<and> length ks = i \<and>
                       last ks = keys ! ((i - 1) mod length keys))"
  proof (intro allI impI)
    fix i :: nat
    assume i: "0 < i"
    then have "[0..<i] \<noteq> []" by simp
    then have "last (map (\<lambda>j. keys ! (j mod length keys)) [0..<i]) =
               keys ! (last [0..<i] mod length keys)"
      by (simp add: last_map)
    moreover have "last [0..<i] = i - 1"
      using i by (cases i) simp_all
    ultimately show "\<exists>ks km'. next_keys i km = Inr (ks, km') \<and> length ks = i \<and>
                       last ks = keys ! ((i - 1) mod length keys)"
      by (simp add: gen)
  qed
  have all: "map (\<lambda>i. keys ! (i mod length keys)) [0..<length keys] = keys"
    by (rule nth_equalityI) simp_all
  let ?km' = "km\<lparr>key_index := length keys mod length keys\<rparr>"
  have "next_keys (length keys) km = Inr (keys, ?km')"
    by (simp add: gen all del: mod_self)
  moreover have "\<exists>km''. get_next_api_key ?km' = Inr (keys ! 0, km'')"
    using L km by (simp add: get_next_api_key_def)
  ultimately have part2: "\<exists>km'. next_keys (length keys) km = Inr (keys, km') \<and>
                 (\<exists>km''. get_next_api_key km' = Inr (keys ! 0, km''))"
    by blast
  from part1 part2 show ?thesis by blast
qed

theorem get_next_api_key_round_robin_witness:
  "APIKeyManager_init [''k1'', ''k2'', ''k3''] =
     Inr \<lparr>api_keys = [''k1'', ''k2'', ''k3''], api_key = ''k1'', key_index = 0,
          model_name = ''gemini-2.0-flash''\<rparr>
   \<and> (\<exists>km'. next_keys 3 \<lparr>api_keys = [''k1'', ''k2'', ''k3''], api_key = ''k1'', key_index = 0,
          model_name = ''gemini-2.0-flash''\<rparr> = Inr ([''k1'', ''k2'', ''k3''], km')
         \<and> (\<exists>km''. get_next_api_key km' = Inr (''k1'', km'')))"
proof -
  have h: "APIKeyManager_init [''k1'', ''k2'', ''k3''] =
     Inr \<lparr>api_keys = [''k1'', ''k2'', ''k3''], api_key = ''k1'', key_index = 0,
          model_name = ''gemini-2.0-flash''\<rparr>"
    by (simp add: APIKeyManager_init_def)
  have l: "length [''k1'', ''k2'', ''k3''] = 3" and n: "[''k1'', ''k2'', ''k3''] ! 0 = ''k1''"
    by simp_all
  from get_next_api_key_round_robin [OF h, THEN conjunct2] h show ?thesis
    by (simp only: l n)
qed

subsection \<open>One iteration of the worker loop\<close>

lemmas step_defs =
  worker_iteration_def try_statement_def except_clause_def finally_clause_def
  q_task_done_def q_put_def task_done_def put_def log_def call_gemini_api_def
  api_invoked_def attempt_error_def attempt_events_def Let_def

lemma iteration_quota:
  assumes "items (request_queue s) = Some req # rest"
    and "files s (generated_response_file d req) = None"
    and "attempt_error (attempt ev) = Some msg"
    and "quota_exceeded msg"
  shows "worker_iteration d ev w s =
    (Continue,
     w\<lparr>api_handler := create_api_handler (key_manager s)\<rparr>,
     s\<lparr>request_queue := (request_queue s)\<lparr>items := rest @ [Some req]\<rparr>,
       trace := trace s @ [Get (Some req)] @ attempt_events w req (attempt ev) @
         [CreateHandler (create_api_handler (key_manager s)), Put (Some req),
          BackoffSleep (backoff_delay (backoff_draw ev)), TaskDone,
          CourtesySleep (courtesy_delay (courtesy_draw ev))]\<rparr>)"
  using assms by (cases "attempt ev") (simp_all add: step_defs)

lemma iteration_retry:
  assumes "items (request_queue s) = Some req # rest"
    and "files s (generated_response_file d req) = None"
    and "attempt_error (attempt ev) = Some msg"
    and "\<not> quota_exceeded msg"
    and "consecutive_errors w + 1 < max_consecutive_errors"
  shows "worker_iteration d ev w s =
    (Continue,
     w\<lparr>consecutive_errors := consecutive_errors w + 1\<rparr>,
     s\<lparr>request_queue := (request_queue s)\<lparr>items := rest @ [Some req]\<rparr>,
       trace := trace s @ [Get (Some req)] @ attempt_events w req (attempt ev) @
         [Put (Some req),
          BackoffSleep (backoff_delay (backoff_draw ev)), TaskDone,
          CourtesySleep (courtesy_delay (courtesy_draw ev))]\<rparr>)"
  using assms by (cases "attempt ev") (simp_all add: step_defs)

lemma iteration_success:
  assumes "items (request_queue s) = Some req # rest"
    and "files s (generated_response_file d req) = None"
    and "attempt ev = Succeeds resp"
    and "0 < unfinished_tasks (request_queue s)"
  shows "worker_iteration d ev w s =
    (Continue,
     w\<lparr>consecutive_errors := 0\<rparr>,
     s\<lparr>request_queue := \<lparr>items = rest, unfinished_tasks = unfinished_tasks (request_queue s) - 1\<rparr>,
       files := (files s)(generated_response_file d req \<mapsto>
          \<lparr>res_image_id = image_id req,
             res_image_path = image_path req,
             res_image_primary_label = image_primary_label req,
             res_image_secondary_label = image_secondary_label req,
             res_api_response = resp,
             res_prompt = prompt req,
             res_model_name = h_model_name (api_handler w)\<rparr>),
       completed_counter := completed_counter s + 1,
       trace := trace s @ [Get (Some req), ApiCall (api_handler w) req,
          WriteFile (generated_response_file d req), TaskDone,
          CourtesySleep (courtesy_delay (courtesy_draw ev))]\<rparr>)"
  using assms by (simp add: step_defs)

lemma pending_Cons:
  assumes "pending d s" and "items (request_queue s) = x # rest"
  obtains req where "x = Some req" and "files s (generated_response_file d req) = None"
    and "list_all (unprocessed d (files s)) rest"
  using assms by (cases x) (auto simp: pending_def unprocessed_def)

lemma failing_loop:
  assumes "pending d s" and "items (request_queue s) \<noteq> []"
    and "list_all (\<lambda>ev. quota_failure ev \<or> other_failure ev) evs"
    and "filter other_failure evs = [] \<or>
         consecutive_errors w + length (filter other_failure evs) < max_consecutive_errors"
  shows "\<exists>w' s'. worker_loop d evs w s = (Running, w', s')
           \<and> consecutive_errors w' = consecutive_errors w + length (filter other_failure evs)
           \<and> api_handler w' =
               (if list_ex quota_failure evs then create_api_handler (key_manager s)
                else api_handler w)
           \<and> items (request_queue s') = rotate (length evs) (items (request_queue s))
           \<and> unfinished_tasks (request_queue s') = unfinished_tasks (request_queue s)
           \<and> files s' = files s \<and> key_manager s' = key_manager s
           \<and> completed_counter s' = completed_counter s"
  using assms
proof (induction evs arbitrary: w s)
  case Nil
  then show ?case by simp
next
  case (Cons ev evs)
  from Cons.prems(2) obtain x rest where xs: "items (request_queue s) = x # rest"
    by (cases "items (request_queue s)") auto
  from Cons.prems(1) xs obtain req where x: "x = Some req"
    and nf: "files s (generated_response_file d req) = None"
    and rest: "list_all (unprocessed d (files s)) rest"
    by (rule pending_Cons)
  from Cons.prems(3) have fail: "quota_failure ev \<or> other_failure ev"
    and fails: "list_all (\<lambda>ev. quota_failure ev \<or> other_failure ev) evs" by simp_all
  from fail obtain msg where msg: "attempt_error (attempt ev) = Some msg"
    by (auto simp: quota_failure_def other_failure_def split: option.splits)
  have it: "items (request_queue s) = Some req # rest" using xs x by simp
  show ?case
  proof (cases "quota_exceeded msg")
    case True
    then have q: "quota_failure ev" "\<not> other_failure ev"
      using msg by (simp_all add: quota_failure_def other_failure_def)
    let ?w1 = "w\<lparr>api_handler := create_api_handler (key_manager s)\<rparr>"
    obtain s1 where step: "worker_iteration d ev w s = (Continue, ?w1, s1)"
      and s1: "items (request_queue s1) = rest @ [Some req]"
         "unfinished_tasks (request_queue s1) = unfinished_tasks (request_queue s)"
         "files s1 = files s" "key_manager s1 = key_manager s"
         "completed_counter s1 = completed_counter s"
      using iteration_quota [OF it nf msg True, of w] by simp
    have p1: "pending d s1" using rest nf s1 by (simp add: pending_def unprocessed_def)
    have ne1: "items (request_queue s1) \<noteq> []" using s1 by simp
    have c1: "filter other_failure evs = [] \<or>
        consecutive_errors ?w1 + length (filter other_failure evs) < max_consecutive_errors"
      using Cons.prems(4) q by auto
    from Cons.IH [OF p1 ne1 fails c1] obtain w' s' where
      loop: "worker_loop d evs ?w1 s1 = (Running, w', s')"
      and r: "consecutive_errors w' = consecutive_errors ?w1 + length (filter other_failure evs)"
        "api_handler w' =
               (if list_ex quota_failure evs then create_api_handler (key_manager s1)
                else api_handler ?w1)"
        "items (request_queue s') = rotate (length evs) (items (request_queue s1))"
        "unfinished_tasks (request_queue s') = unfinished_tasks (request_queue s1)"
        "files s' = files s1" "key_manager s' = key_manager s1"
        "completed_counter s' = completed_counter s1"
      by blast
    have rot: "rotate (length evs) (rest @ [Some req]) = rotate (length (ev # evs)) (Some req # rest)"
      by (simp add: rotate1_rotate_swap)
    show ?thesis
      using step loop r s1 q it rot by simp
  next
    case False
    then have q: "\<not> quota_failure ev" "other_failure ev"
      using msg by (simp_all add: quota_failure_def other_failure_def)
    have below: "consecutive_errors w + 1 < max_consecutive_errors"
      using Cons.prems(4) q by simp
    let ?w1 = "w\<lparr>consecutive_errors := consecutive_errors w + 1\<rparr>"
    obtain s1 where step: "worker_iteration d ev w s = (Continue, ?w1, s1)"
      and s1: "items (request_queue s1) = rest @ [Some req]"
         "unfinished_tasks (request_queue s1) = unfinished_tasks (request_queue s)"
         "files s1 = files s" "key_manager s1 = key_manager s"
         "completed_counter s1 = completed_counter s"
      using iteration_retry [OF it nf msg False below] by simp
    have p1: "pending d s1" using rest nf s1 by (simp add: pending_def unprocessed_def)
    have ne1: "items (request_queue s1) \<noteq> []" using s1 by simp
    have c1: "filter other_failure evs = [] \<or>
        consecutive_errors ?w1 + length (filter other_failure evs) < max_consecutive_errors"
      using Cons.prems(4) q by auto
    from Cons.IH [OF p1 ne1 fails c1] obtain w' s' where
      loop: "worker_loop d evs ?w1 s1 = (Running, w', s')"
      and r: "consecutive_errors w' = consecutive_errors ?w1 + length (filter other_failure evs)"
        "api_handler w' =
               (if list_ex quota_failure evs then create_api_handler (key_manager s1)
                else api_handler ?w1)"
        "items (request_queue s') = rotate (length evs) (items (request_queue s1))"
        "unfinished_tasks (request_queue s') = unfinished_tasks (request_queue s1)"
        "files s' = files s1" "key_manager s' = key_manager s1"
        "completed_counter s' = completed_counter s1"
      by blast
    have rot: "rotate (length evs) (rest @ [Some req]) = rotate (length (ev # evs)) (Some req # rest)"
      by (simp add: rotate1_rotate_swap)
    show ?thesis
      using step loop r s1 q it rot by simp
  qed
qed

lemma unfinished_history_append:
  "unfinished_history u (xs @ ys) =
     unfinished_history u xs @ unfinished_history (last (u # unfinished_history u xs)) ys"
  by (induction u xs rule: unfinished_history.induct) simp_all

lemma unfinished_history_attempt_events [simp]:
  "unfinished_history u (attempt_events w req a) = []"
  by (simp add: attempt_events_def)

text \<open>
  C3. A dequeued job whose processing attempt fails with a message that contains one
  of the quota phrases is put back on the queue unchanged, the worker takes a handler
  from \<^verbatim>\<open>create_api_handler\<close> and its failure counter stays as it was. However
  many attempts fail that way, the worker stays in its loop and every job is still in
  the queue: after \<open>length evs\<close> quota failures the queue is the old one rotated.
\<close>

theorem quota_failure_requeues_job:
  assumes "items (request_queue s) = Some req # rest"
    and "files s (generated_response_file d req) = None"
    and "quota_failure ev"
    and "list_all quota_failure evs"
  shows "(\<exists>s1. worker_iteration d ev w s =
              (Continue, w\<lparr>api_handler := create_api_handler (key_manager s)\<rparr>, s1)
            \<and> items (request_queue s1) = rest @ [Some req]
            \<and> unfinished_tasks (request_queue s1) = unfinished_tasks (request_queue s)
            \<and> Put (Some req) \<in> set (trace s1))
       \<and> (pending d s \<longrightarrow>
            (\<exists>w' s'. worker_loop d evs w s = (Running, w', s')
               \<and> consecutive_errors w' = consecutive_errors w
               \<and> items (request_queue s') = rotate (length evs) (items (request_queue s))
               \<and> set (items (request_queue s')) = set (items (request_queue s))
               \<and> unfinished_tasks (request_queue s') = unfinished_tasks (request_queue s)))"
proof -
  from assms(3) obtain msg where msg: "attempt_error (attempt ev) = Some msg"
    and q: "quota_exceeded msg"
    by (auto simp: quota_failure_def split: option.splits)
  have one: "\<exists>s1. worker_iteration d ev w s =
              (Continue, w\<lparr>api_handler := create_api_handler (key_manager s)\<rparr>, s1)
            \<and> items (request_queue s1) = rest @ [Some req]
            \<and> unfinished_tasks (request_queue s1) = unfinished_tasks (request_queue s)
            \<and> Put (Some req) \<in> set (trace s1)"
    using iteration_quota [OF assms(1,2) msg q, of w] by simp
  have many: "\<exists>w' s'. worker_loop d evs w s = (Running, w', s')
               \<and> consecutive_errors w' = consecutive_errors w
               \<and> items (request_queue s') = rotate (length evs) (items (request_queue s))
               \<and> set (items (request_queue s')) = set (items (request_queue s))
               \<and> unfinished_tasks (request_queue s') = unfinished_tasks (request_queue s)"
    if p: "pending d s"
  proof -
    have ne: "items (request_queue s) \<noteq> []" using assms(1) by simp
    have all: "list_all (\<lambda>ev. quota_failure ev \<or> other_failure ev) evs"
      using assms(4) by (simp add: list_all_iff)
    have none: "filter other_failure evs = []"
      using assms(4)
      by (auto simp: list_all_iff filter_empty_conv quota_failure_def other_failure_def
          split: option.splits)
    from failing_loop [OF p ne all disjI1 [OF none]] none show ?thesis
      by (metis add.right_neutral list.size(3) set_rotate)
  qed
  from one many show ?thesis by blast
qed


theorem quota_failure_requeues_job_witness:
  "items (request_queue (example_state [Some (example_request ''fig1'' ''images/abc.jpg'')])) =
     Some (example_request ''fig1'' ''images/abc.jpg'') # []
   \<and> files (example_state [Some (example_request ''fig1'' ''images/abc.jpg'')])
        (generated_response_file ''out'' (example_request ''fig1'' ''images/abc.jpg'')) = None
   \<and> quota_failure (example_env (ApiFails ''429 RESOURCE_EXHAUSTED''))
   \<and> list_all quota_failure (replicate 3 (example_env (ApiFails ''429 RESOURCE_EXHAUSTED'')))
   \<and> pending ''out'' (example_state [Some (example_request ''fig1'' ''images/abc.jpg'')])
   \<and> fst (worker_loop ''out'' (replicate 3 (example_env (ApiFails ''429 RESOURCE_EXHAUSTED'')))
          (worker_init (example_state [Some (example_request ''fig1'' ''images/abc.jpg'')]))
          (example_state [Some (example_request ''fig1'' ''images/abc.jpg'')])) = Running
   \<and> items (request_queue (snd (snd (worker_loop ''out''
          (replicate 3 (example_env (ApiFails ''429 RESOURCE_EXHAUSTED'')))
          (worker_init (example_state [Some (example_request ''fig1'' ''images/abc.jpg'')]))
          (example_state [Some (example_request ''fig1'' ''images/abc.jpg'')]))))) =
     [Some (example_request ''fig1'' ''images/abc.jpg'')]"
proof -
  let ?R = "example_request ''fig1'' ''images/abc.jpg''"
  let ?S = "example_state [Some ?R]"
  let ?E = "example_env (ApiFails ''429 RESOURCE_EXHAUSTED'')"
  have h1: "items (request_queue ?S) = Some ?R # []"
    by (simp add: example_state_def)
  have h2: "files ?S (generated_response_file ''out'' ?R) = None"
    by (simp add: example_state_def)
  have h3: "quota_failure ?E"
    by (simp add: quota_failure_def example_env_def attempt_error_def quota_exceeded_def
        possible_errors_def)
  have h4: "list_all quota_failure (replicate 3 ?E)"
    using h3 by (simp add: list_all_iff)
  have h5: "pending ''out'' ?S"
    using h2 by (simp add: pending_def unprocessed_def example_state_def)
  from quota_failure_requeues_job [OF h1 h2 h3 h4, of "worker_init ?S"] h5
  obtain w' s' where "worker_loop ''out'' (replicate 3 ?E) (worker_init ?S) ?S = (Running, w', s')"
    and "items (request_queue s') = rotate (length (replicate 3 ?E)) (items (request_queue ?S))"
    by blast
  then show ?thesis
    using h1 h2 h3 h4 h5 by (simp add: example_state_def)
qed

lemma iteration_counter:
  assumes "items (request_queue s) = Some req # rest"
    and "files s (generated_response_file d req) = None"
  shows "consecutive_errors (fst (snd (worker_iteration d ev w s))) =
           (if quota_failure ev then consecutive_errors w
            else if other_failure ev then consecutive_errors w + 1
            else 0)"
  using assms
  by (cases "attempt ev")
     (simp_all add: step_defs quota_failure_def other_failure_def split: if_splits)

text \<open>
  The failure that brings the counter to the ceiling: \<^verbatim>\<open>task_done\<close> is called on
  line 192 and again in the \<^verbatim>\<open>finally\<close> clause. With at most one unfinished task
  left, one of the two calls raises.
\<close>

lemma iteration_fatal:
  assumes "items (request_queue s) = Some req # rest"
    and "files s (generated_response_file d req) = None"
    and "other_failure ev"
    and "max_consecutive_errors \<le> consecutive_errors w + 1"
  shows "worker_iteration d ev w s =
    (if unfinished_tasks (request_queue s) \<le> 1
     then Raise (ValueError ''task_done() called too many times'')
     else Break,
     w\<lparr>consecutive_errors := consecutive_errors w + 1\<rparr>,
     s\<lparr>request_queue :=
         \<lparr>items = rest, unfinished_tasks = unfinished_tasks (request_queue s) - 2\<rparr>,
       trace := trace s @ [Get (Some req)] @ attempt_events w req (attempt ev) @
         [TaskDone, TaskDone] @
         (if unfinished_tasks (request_queue s) \<le> 1 then []
          else [CourtesySleep (courtesy_delay (courtesy_draw ev))])\<rparr>)"
  using assms
  by (cases "attempt ev")
     (auto simp: step_defs other_failure_def split: if_splits)

text \<open>
  A job whose response file exists: two acknowledgments as well, the one of line 150
  and the one of the \<^verbatim>\<open>finally\<close> clause.
\<close>

lemma iteration_skip:
  assumes "items (request_queue s) = Some req # rest"
    and "files s (generated_response_file d req) \<noteq> None"
    and "2 \<le> unfinished_tasks (request_queue s)"
  shows "worker_iteration d ev w s =
    (Continue, w,
     s\<lparr>request_queue :=
         \<lparr>items = rest, unfinished_tasks = unfinished_tasks (request_queue s) - 2\<rparr>,
       trace := trace s @
         [Get (Some req), TaskDone, TaskDone,
          CourtesySleep (courtesy_delay (courtesy_draw ev))]\<rparr>)"
  using assms by (auto simp: step_defs)

subsection \<open>Retries\<close>

text \<open>
  In an iteration whose attempt fails and is retried (a quota failure, or another
  failure while the counter stays below the ceiling) the worker puts the job back
  before the \<^verbatim>\<open>task_done\<close> of the \<^verbatim>\<open>finally\<close> clause: the trace of the
  iteration ends with the put, the backoff sleep, the acknowledgment and the courtesy
  sleep, and nothing before the put acknowledges. During the iteration the count of
  unfinished tasks goes from \<open>u\<close> to \<open>u + 1\<close> and back to \<open>u\<close>, whatever \<open>u\<close>
  was when the job was dequeued.
\<close>

lemma retry_iteration_order:
  assumes "items (request_queue s) = Some req # rest"
    and "files s (generated_response_file d req) = None"
    and "quota_failure ev \<or>
         (other_failure ev \<and> consecutive_errors w + 1 < max_consecutive_errors)"
  shows "\<exists>w' s' before.
           worker_iteration d ev w s = (Continue, w', s')
         \<and> trace s' = trace s @ before @
              [Put (Some req), BackoffSleep (backoff_delay (backoff_draw ev)),
               TaskDone, CourtesySleep (courtesy_delay (courtesy_draw ev))]
         \<and> TaskDone \<notin> set before
         \<and> items (request_queue s') = rest @ [Some req]
         \<and> unfinished_history (unfinished_tasks (request_queue s))
              (before @ [Put (Some req), BackoffSleep (backoff_delay (backoff_draw ev)),
               TaskDone, CourtesySleep (courtesy_delay (courtesy_draw ev))]) =
            [unfinished_tasks (request_queue s) + 1, unfinished_tasks (request_queue s)]
         \<and> unfinished_tasks (request_queue s') = unfinished_tasks (request_queue s)"
proof -
  let ?u = "unfinished_tasks (request_queue s)"
  let ?tail = "[Put (Some req), BackoffSleep (backoff_delay (backoff_draw ev)),
               TaskDone, CourtesySleep (courtesy_delay (courtesy_draw ev))]"
  have hist: "unfinished_history ?u (before @ ?tail) = [?u + 1, ?u]"
    if "unfinished_history ?u before = []" for before
    using that by (simp add: unfinished_history_append)
  from assms(3) show ?thesis
  proof
    assume q: "quota_failure ev"
    then obtain msg where msg: "attempt_error (attempt ev) = Some msg"
      and qe: "quota_exceeded msg"
      by (auto simp: quota_failure_def split: option.splits)
    let ?before = "[Get (Some req)] @ attempt_events w req (attempt ev) @
         [CreateHandler (create_api_handler (key_manager s))]"
    have h: "unfinished_history ?u ?before = []"
      by (simp add: attempt_events_def)
    have t: "TaskDone \<notin> set ?before" by (simp add: attempt_events_def)
    let ?s1 = "s\<lparr>request_queue := (request_queue s)\<lparr>items := rest @ [Some req]\<rparr>,
                   trace := trace s @ ?before @ ?tail\<rparr>"
    show ?thesis
      apply (rule exI [of _ "w\<lparr>api_handler := create_api_handler (key_manager s)\<rparr>"])
      apply (rule exI [of _ ?s1])
      apply (rule exI [of _ ?before])
      using iteration_quota [OF assms(1,2) msg qe, of w] hist [OF h] t
      apply simp
      done
  next
    assume o: "other_failure ev \<and> consecutive_errors w + 1 < max_consecutive_errors"
    then obtain msg where msg: "attempt_error (attempt ev) = Some msg"
      and qe: "\<not> quota_exceeded msg"
      by (auto simp: other_failure_def split: option.splits)
    let ?before = "[Get (Some req)] @ attempt_events w req (attempt ev)"
    have h: "unfinished_history ?u ?before = []"
      by (simp add: attempt_events_def)
    have t: "TaskDone \<notin> set ?before" by (simp add: attempt_events_def)
    let ?s1 = "s\<lparr>request_queue := (request_queue s)\<lparr>items := rest @ [Some req]\<rparr>,
                   trace := trace s @ ?before @ ?tail\<rparr>"
    show ?thesis
      apply (rule exI [of _ "w\<lparr>consecutive_errors := consecutive_errors w + 1\<rparr>"])
      apply (rule exI [of _ ?s1])
      apply (rule exI [of _ ?before])
      using iteration_retry [OF assms(1,2) msg qe conjunct2 [OF o]] hist [OF h] t
      apply simp
      done
  qed
qed


lemma worker_loop_append:
  "worker_loop d (evs1 @ evs2) w s =
     (case worker_loop d evs1 w s of
        (Running, w', s') \<Rightarrow> worker_loop d evs2 w' s'
      | r \<Rightarrow> r)"
  by (induction evs1 arbitrary: w s) (auto split: prod.splits control.splits)

lemma pending_rotate:
  assumes "pending d s" and "files s' = files s"
    and "items (request_queue s') = rotate n (items (request_queue s))"
  shows "pending d s'"
  using assms by (simp add: pending_def list_all_iff)

text \<open>
  C10. The failure counter after a processing attempt is the old one after a quota
  failure, one more after any other failure and zero after a success. So failures
  that are not quota failures add up across quota failures in between: when the
  failures \<open>evs\<close> bring the counter to 99, whatever quota failures lie among them, the
  worker is still in its loop, and one more such failure makes it leave the loop with
  the counter at the ceiling.
\<close>

theorem consecutive_errors_skip_quota_failures:
  assumes "items (request_queue s) = Some req # rest"
    and "files s (generated_response_file d req) = None"
  shows "consecutive_errors (fst (snd (worker_iteration d ev w s))) =
           (if quota_failure ev then consecutive_errors w
            else if other_failure ev then consecutive_errors w + 1
            else 0)
       \<and> (pending d s \<and> list_all (\<lambda>ev. quota_failure ev \<or> other_failure ev) evs \<and>
          consecutive_errors w + length (filter other_failure evs) + 1 = max_consecutive_errors \<and>
          other_failure ev \<longrightarrow>
            (\<exists>w1 s1. worker_loop d evs w s = (Running, w1, s1)
               \<and> consecutive_errors w1 =
                   consecutive_errors w + length (filter other_failure evs))
          \<and> (\<exists>x w' s'. worker_loop d (evs @ [ev]) w s = (x, w', s')
               \<and> x \<noteq> Running \<and> consecutive_errors w' = max_consecutive_errors))"
proof -
  have fatal: "(\<exists>w1 s1. worker_loop d evs w s = (Running, w1, s1)
               \<and> consecutive_errors w1 =
                   consecutive_errors w + length (filter other_failure evs))
          \<and> (\<exists>x w' s'. worker_loop d (evs @ [ev]) w s = (x, w', s')
               \<and> x \<noteq> Running \<and> consecutive_errors w' = max_consecutive_errors)"
    if p: "pending d s"
      and all: "list_all (\<lambda>ev. quota_failure ev \<or> other_failure ev) evs"
      and c: "consecutive_errors w + length (filter other_failure evs) + 1 = max_consecutive_errors"
      and o: "other_failure ev"
  proof -
    have ne: "items (request_queue s) \<noteq> []" using assms(1) by simp
    have below: "filter other_failure evs = [] \<or>
        consecutive_errors w + length (filter other_failure evs) < max_consecutive_errors"
      using c by simp
    from failing_loop [OF p ne all below] obtain w1 s1 where
      loop: "worker_loop d evs w s = (Running, w1, s1)"
      and c1: "consecutive_errors w1 = consecutive_errors w + length (filter other_failure evs)"
      and it: "items (request_queue s1) = rotate (length evs) (items (request_queue s))"
      and fs: "files s1 = files s"
      by blast
    have p1: "pending d s1" using p fs it by (rule pending_rotate)
    have "items (request_queue s1) \<noteq> []" using it ne by simp
    then obtain x rest1 where xs: "items (request_queue s1) = x # rest1"
      by (cases "items (request_queue s1)") auto
    from p1 xs obtain req1 where x: "x = Some req1"
      and nf: "files s1 (generated_response_file d req1) = None"
      by (rule pending_Cons)
    have it1: "items (request_queue s1) = Some req1 # rest1" using xs x by simp
    have top: "max_consecutive_errors \<le> consecutive_errors w1 + 1" using c c1 by simp
    obtain ctl s2 where step: "worker_iteration d ev w1 s1 =
        (ctl, w1\<lparr>consecutive_errors := consecutive_errors w1 + 1\<rparr>, s2)"
      and ctl: "ctl \<noteq> Continue"
      using iteration_fatal [OF it1 nf o top] by (cases "unfinished_tasks (request_queue s1) \<le> 1") simp_all
    have "\<exists>x w' s'. worker_loop d [ev] w1 s1 = (x, w', s')
               \<and> x \<noteq> Running \<and> consecutive_errors w' = max_consecutive_errors"
      using step ctl c c1 by (cases ctl) simp_all
    then have "\<exists>x w' s'. worker_loop d (evs @ [ev]) w s = (x, w', s')
               \<and> x \<noteq> Running \<and> consecutive_errors w' = max_consecutive_errors"
      using loop by (simp add: worker_loop_append)
    with loop c1 show ?thesis by blast
  qed
  from iteration_counter [OF assms, of ev w] fatal show ?thesis by blast
qed


theorem consecutive_errors_skip_quota_failures_witness:
  "items (request_queue (example_state [Some (example_request ''fig1'' ''images/abc.jpg'')])) =
     Some (example_request ''fig1'' ''images/abc.jpg'') # []
   \<and> files (example_state [Some (example_request ''fig1'' ''images/abc.jpg'')])
        (generated_response_file ''out'' (example_request ''fig1'' ''images/abc.jpg'')) = None
   \<and> pending ''out'' (example_state [Some (example_request ''fig1'' ''images/abc.jpg'')])
   \<and> list_all (\<lambda>ev. quota_failure ev \<or> other_failure ev)
        [example_env (ApiFails ''500 internal error''),
         example_env (ApiFails ''429 RESOURCE_EXHAUSTED''),
         example_env (ApiFails ''500 internal error'')]
   \<and> consecutive_errors \<lparr>api_handler = \<lparr>h_api_key = ''k1'', h_model_name = ''m''\<rparr>,
                          consecutive_errors = 97\<rparr>
       + length (filter other_failure
          [example_env (ApiFails ''500 internal error''),
           example_env (ApiFails ''429 RESOURCE_EXHAUSTED''),
           example_env (ApiFails ''500 internal error'')]) + 1 = max_consecutive_errors
   \<and> other_failure (example_env (ApiFails ''500 internal error''))
   \<and> fst (worker_loop ''out''
          ([example_env (ApiFails ''500 internal error''),
            example_env (ApiFails ''429 RESOURCE_EXHAUSTED''),
            example_env (ApiFails ''500 internal error'')] @
           [example_env (ApiFails ''500 internal error'')])
          \<lparr>api_handler = \<lparr>h_api_key = ''k1'', h_model_name = ''m''\<rparr>, consecutive_errors = 97\<rparr>
          (example_state [Some (example_request ''fig1'' ''images/abc.jpg'')])) \<noteq> Running"
proof -
  let ?R = "example_request ''fig1'' ''images/abc.jpg''"
  let ?S = "example_state [Some ?R]"
  let ?O = "example_env (ApiFails ''500 internal error'')"
  let ?Q = "example_env (ApiFails ''429 RESOURCE_EXHAUSTED'')"
  let ?W = "\<lparr>api_handler = \<lparr>h_api_key = ''k1'', h_model_name = ''m''\<rparr>, consecutive_errors = 97\<rparr>"
  have h1: "items (request_queue ?S) = Some ?R # []"
    by (simp add: example_state_def)
  have h2: "files ?S (generated_response_file ''out'' ?R) = None"
    by (simp add: example_state_def)
  have p: "pending ''out'' ?S"
    using h2 by (simp add: pending_def unprocessed_def example_state_def)
  have o: "other_failure ?O" and no: "\<not> quota_failure ?O"
    by (simp_all add: other_failure_def quota_failure_def example_env_def attempt_error_def
        quota_exceeded_def possible_errors_def)
  have q: "quota_failure ?Q" and nq: "\<not> other_failure ?Q"
    by (simp_all add: other_failure_def quota_failure_def example_env_def attempt_error_def
        quota_exceeded_def possible_errors_def)
  have all: "list_all (\<lambda>ev. quota_failure ev \<or> other_failure ev) [?O, ?Q, ?O]"
    using o q by simp
  have c: "consecutive_errors ?W + length (filter other_failure [?O, ?Q, ?O]) + 1 =
      max_consecutive_errors"
    using o nq by (simp add: max_consecutive_errors_def)
  from consecutive_errors_skip_quota_failures [OF h1 h2, of ?O ?W "[?O, ?Q, ?O]"] p all c o
  obtain x w' s' where "worker_loop ''out'' ([?O, ?Q, ?O] @ [?O]) ?W ?S = (x, w', s')"
    and "x \<noteq> Running"
    by blast
  then have "fst (worker_loop ''out'' ([?O, ?Q, ?O] @ [?O]) ?W ?S) \<noteq> Running"
    by simp
  with h1 h2 p all c o show ?thesis by blast
qed

lemmas run_defs =
  dispatcher_def Queue_init_def APIKeyManager_init_def num_workers_def worker_init_def
  create_api_handler_def generated_response_file_def local_image_id_def basename_def
  example_request_def example_env_def quota_exceeded_def possible_errors_def
  max_consecutive_errors_def dequeued_def acknowledged_def api_calls_def
  numeral_3_eq_3

subsection \<open>Acknowledgments\<close>

text \<open>
  C1. Every item a worker dequeues should be acknowledged with \<^verbatim>\<open>task_done\<close>
  exactly once. The code acknowledges a skipped job twice: once on line 150 and once
  more in the \<^verbatim>\<open>finally\<close> clause, which also runs on \<^verbatim>\<open>continue\<close>. Here
  three requests are seeded, the second naming the same response file as the first;
  after the first worker has processed one and skipped the other it has dequeued two
  items and acknowledged three, and the count of unfinished tasks is zero while the
  third request is still in the queue.
\<close>

theorem skip_acknowledges_twice:
  "(case dispatcher ''out'' [''k1'']
           [example_request ''fig1'' ''images/abc.jpg'',
            example_request ''fig2'' ''copies/abc.jpg'',
            example_request ''fig3'' ''images/xyz.jpg'']
           Map.empty
           [Turn 0 (example_env (Succeeds (Some ''answer''))),
            Turn 0 (example_env (Succeeds (Some ''answer'')))] of
      Inl e \<Rightarrow> False
    | Inr (no_of_skipped, ws, s) \<Rightarrow>
        no_of_skipped = 0
      \<and> map fst ws = [Continue, Continue, Continue]
      \<and> dequeued (trace s) = 2
      \<and> acknowledged (trace s) = 3
      \<and> api_calls (trace s) = [example_request ''fig1'' ''images/abc.jpg'']
      \<and> request_queue s =
          \<lparr>items = [Some (example_request ''fig3'' ''images/xyz.jpg'')], unfinished_tasks = 0\<rparr>)"
  by (simp add: run_defs step_defs)


text \<open>
  C4. A worker that dequeues a job whose response file exists should acknowledge it
  and go on with its loop without calling the API. The API is indeed not called, but
  the second acknowledgment of the skip raises \<^verbatim>\<open>ValueError\<close> when the skipped
  job was the last unfinished item, and the worker leaves its loop with that
  exception. Here two requests that name the same response file are seeded; the
  worker processes the first and dies on the second.
\<close>

theorem skip_of_last_item_raises:
  "(case dispatcher ''out'' [''k1'']
           [example_request ''fig1'' ''images/abc.jpg'',
            example_request ''fig2'' ''copies/abc.jpg'']
           Map.empty
           [Turn 0 (example_env (Succeeds (Some ''answer''))),
            Turn 0 (example_env (Succeeds (Some ''answer'')))] of
      Inl e \<Rightarrow> False
    | Inr (no_of_skipped, ws, s) \<Rightarrow>
        no_of_skipped = 0
      \<and> map fst ws =
          [Raise (ValueError ''task_done() called too many times''), Continue, Continue]
      \<and> api_calls (trace s) = [example_request ''fig1'' ''images/abc.jpg'']
      \<and> dom (files s) = {''out/abc_response.json''}
      \<and> request_queue s = \<lparr>items = [], unfinished_tasks = 0\<rparr>)"
  by (simp add: run_defs step_defs)

text \<open>
  C9. A retried job should be put back before its failed attempt is acknowledged, so
  that the count of unfinished tasks is never zero while a retry is owed and
  \<^verbatim>\<open>join\<close> cannot return early. The order is as it should be, but the count is
  not protected by it: the double acknowledgment of a skipped job has already taken
  one too many off. Here three requests are seeded, the second naming the same
  response file as the first. The first worker processes one and skips the other,
  which brings the count from 3 to 0; the second worker's attempt at the third
  request fails with a quota error, the request is put back and then acknowledged,
  and the count is zero again with the request still in the queue.
\<close>

theorem retry_owed_with_no_unfinished_task:
  "(case dispatcher ''out'' [''k1'']
           [example_request ''fig1'' ''images/abc.jpg'',
            example_request ''fig2'' ''copies/abc.jpg'',
            example_request ''fig3'' ''images/xyz.jpg'']
           Map.empty
           [Turn 0 (example_env (Succeeds (Some ''answer''))),
            Turn 0 (example_env (Succeeds (Some ''answer''))),
            Turn 1 (example_env (ApiFails ''429 RESOURCE_EXHAUSTED''))] of
      Inl e \<Rightarrow> False
    | Inr (no_of_skipped, ws, s) \<Rightarrow>
        no_of_skipped = 0
      \<and> map fst ws = [Continue, Continue, Continue]
      \<and> drop 9 (trace s) =
          [Get (Some (example_request ''fig3'' ''images/xyz.jpg'')),
           ApiCall \<lparr>h_api_key = ''k1'', h_model_name = ''gemini-2.0-flash''\<rparr>
             (example_request ''fig3'' ''images/xyz.jpg''),
           CreateHandler \<lparr>h_api_key = ''k1'', h_model_name = ''gemini-2.0-flash''\<rparr>,
           Put (Some (example_request ''fig3'' ''images/xyz.jpg'')),
           BackoffSleep (backoff_delay 0), TaskDone, CourtesySleep (courtesy_delay 0)]
      \<and> unfinished_history 3 (trace s) = [2, 1, 0, 1, 0]
      \<and> request_queue s =
          \<lparr>items = [Some (example_request ''fig3'' ''images/xyz.jpg'')], unfinished_tasks = 0\<rparr>)"
  by (simp add: run_defs step_defs)

text \<open>
  C5. The active key of the pool should be reassigned to a different key when a
  worker handles a quota failure. The code never assigns \<^verbatim>\<open>api_key\<close> after
  \<^verbatim>\<open>__init__\<close> and never calls \<^verbatim>\<open>get_next_api_key\<close>: after a quota failure
  with two keys in the pool the active key, the cursor and the key of the worker's new
  handler are what they were, the exhausted first key.
\<close>

theorem quota_failure_keeps_exhausted_key:
  "(case dispatcher ''out'' [''k1'', ''k2'']
           [example_request ''fig1'' ''images/abc.jpg'']
           Map.empty
           [Turn 0 (example_env (ApiFails ''429 RESOURCE_EXHAUSTED''))] of
      Inl e \<Rightarrow> False
    | Inr (no_of_skipped, ws, s) \<Rightarrow>
        map fst ws = [Continue, Continue, Continue]
      \<and> api_key (key_manager s) = ''k1''
      \<and> key_index (key_manager s) = 0
      \<and> h_api_key (api_handler (snd (ws ! 0))) = ''k1''
      \<and> trace s =
          [Get (Some (example_request ''fig1'' ''images/abc.jpg'')),
           ApiCall \<lparr>h_api_key = ''k1'', h_model_name = ''gemini-2.0-flash''\<rparr>
             (example_request ''fig1'' ''images/abc.jpg''),
           CreateHandler \<lparr>h_api_key = ''k1'', h_model_name = ''gemini-2.0-flash''\<rparr>,
           Put (Some (example_request ''fig1'' ''images/abc.jpg'')),
           BackoffSleep (backoff_delay 0), TaskDone, CourtesySleep (courtesy_delay 0)])"
  by (simp add: run_defs step_defs)

lemma worker_iteration_key_manager:
  "key_manager (snd (snd (worker_iteration d ev w s))) = key_manager s"
  by (simp add: step_defs split: list.splits option.splits attempt.splits)

lemma run_workers_idle:
  assumes "\<not> (i < length ws \<and> fst (ws ! i) = Continue)"
  shows "run_workers d (map (Turn i) evs) ws s = (ws, s)"
  using assms by (induction evs) auto

lemma run_workers_single:
  assumes "i < length ws" and "fst (ws ! i) = Continue"
  shows "run_workers d (map (Turn i) evs) ws s =
     (case worker_loop d evs (snd (ws ! i)) s of
        (x, w', s') \<Rightarrow> (ws[i := (control_of x, w')], s'))"
  using assms
proof (induction evs arbitrary: ws s)
  case Nil
  then have "ws[i := (Continue, snd (ws ! i))] = ws"
    by (metis list_update_id prod.collapse)
  then show ?case by (simp add: control_of_def)
next
  case (Cons ev evs)
  obtain c w' s' where step: "worker_iteration d ev (snd (ws ! i)) s = (c, w', s')"
    by (cases "worker_iteration d ev (snd (ws ! i)) s") auto
  show ?case
  proof (cases c)
    case Continue
    have "run_workers d (map (Turn i) evs) (ws[i := (Continue, w')]) s' =
      (case worker_loop d evs w' s' of
        (x, w'', s'') \<Rightarrow> (ws[i := (control_of x, w'')], s''))"
      using Cons.IH [of "ws[i := (Continue, w')]" s'] Cons.prems
      by (simp split: prod.splits)
    then show ?thesis
      using Cons.prems step Continue by simp
  next
    case Break
    have "run_workers d (map (Turn i) evs) (ws[i := (Break, w')]) s' = (ws[i := (Break, w')], s')"
      using Cons.prems by (intro run_workers_idle) simp
    then show ?thesis
      using Cons.prems step Break by (simp add: control_of_def)
  next
    case (Raise e)
    have "run_workers d (map (Turn i) evs) (ws[i := (Raise e, w')]) s' = (ws[i := (Raise e, w')], s')"
      using Cons.prems by (intro run_workers_idle) simp
    then show ?thesis
      using Cons.prems step Raise by (simp add: control_of_def)
  qed
qed


lemma rotate_singleton: "rotate n [x] = [x]"
  by (induction n) simp_all

text \<open>
  C2. When a worker's failure counter reaches the ceiling the worker should
  acknowledge the item, not put the job back, and leave its loop without an
  exception. The code acknowledges on line 192 and again in the \<^verbatim>\<open>finally\<close>
  clause, which also runs on \<^verbatim>\<open>break\<close>. Here one request is seeded and its image
  cannot be opened: the hundredth failure of the first worker ends with two
  \<^verbatim>\<open>task_done\<close> calls, and the second raises \<^verbatim>\<open>ValueError\<close> out of the loop.
\<close>

theorem fatal_drop_raises:
  "(case dispatcher ''out'' [''k1'']
           [example_request ''fig1'' ''images/abc.jpg'']
           Map.empty
           (map (Turn 0)
              (replicate 100 (example_env (ImageOpenFails ''cannot identify image file'')))) of
      Inl e \<Rightarrow> False
    | Inr (no_of_skipped, ws, s) \<Rightarrow>
        map fst ws =
          [Raise (ValueError ''task_done() called too many times''), Continue, Continue]
      \<and> consecutive_errors (snd (ws ! 0)) = 100
      \<and> drop (length (trace s) - 3) (trace s) =
          [Get (Some (example_request ''fig1'' ''images/abc.jpg'')), TaskDone, TaskDone]
      \<and> request_queue s = \<lparr>items = [], unfinished_tasks = 0\<rparr>
      \<and> files s = Map.empty)"
proof -
  let ?R = "example_request ''fig1'' ''images/abc.jpg''"
  let ?E = "example_env (ImageOpenFails ''cannot identify image file'')"
  let ?KM = "\<lparr>api_keys = [''k1''], api_key = ''k1'', key_index = 0,
              model_name = ''gemini-2.0-flash''\<rparr>"
  let ?S = "\<lparr>request_queue = \<lparr>items = [Some ?R], unfinished_tasks = 1\<rparr>, key_manager = ?KM,
             files = Map.empty, completed_counter = 0, trace = []\<rparr>"
  let ?W = "worker_init ?S"
  let ?V = "ValueError ''task_done() called too many times''"
  have seed: "seed_queue ''out'' Map.empty [?R] Queue_init 0 =
      (\<lparr>items = [Some ?R], unfinished_tasks = 1\<rparr>, 0)"
    by (simp add: Queue_init_def put_def)
  have km: "APIKeyManager_init [''k1''] = Inr ?KM"
    by (simp add: APIKeyManager_init_def)
  have o: "other_failure ?E"
    by (simp add: other_failure_def example_env_def attempt_error_def quota_exceeded_def
        possible_errors_def)
  have p: "pending ''out'' ?S"
    by (simp add: pending_def unprocessed_def)
  have ne: "items (request_queue ?S) \<noteq> []" by simp
  have all: "list_all (\<lambda>ev. quota_failure ev \<or> other_failure ev) (replicate 99 ?E)"
    using o by (simp add: list_all_iff)
  have cnt: "length (filter other_failure (replicate 99 ?E)) = 99"
    using o by simp
  have below: "filter other_failure (replicate 99 ?E) = [] \<or>
      consecutive_errors ?W + length (filter other_failure (replicate 99 ?E))
        < max_consecutive_errors"
    unfolding cnt by (simp add: worker_init_def max_consecutive_errors_def)
  from failing_loop [OF p ne all below] obtain w1 s1 where
    loop: "worker_loop ''out'' (replicate 99 ?E) ?W ?S = (Running, w1, s1)"
    and c1: "consecutive_errors w1 = consecutive_errors ?W +
               length (filter other_failure (replicate 99 ?E))"
    and it: "items (request_queue s1) = rotate (length (replicate 99 ?E)) (items (request_queue ?S))"
    and u1: "unfinished_tasks (request_queue s1) = unfinished_tasks (request_queue ?S)"
    and fs: "files s1 = files ?S"
    by blast
  have c1': "consecutive_errors w1 = 99"
    using c1 unfolding cnt by (simp add: worker_init_def)
  have it1: "items (request_queue s1) = Some ?R # []"
    using it by (simp add: rotate_singleton)
  have nf: "files s1 (generated_response_file ''out'' ?R) = None"
    using fs by simp
  have top: "max_consecutive_errors \<le> consecutive_errors w1 + 1"
    using c1' by (simp add: max_consecutive_errors_def)
  have ev: "attempt_events w1 ?R (attempt ?E) = []"
    by (simp add: attempt_events_def api_invoked_def example_env_def)
  let ?w2 = "w1\<lparr>consecutive_errors := 100\<rparr>"
  let ?s2 = "s1\<lparr>request_queue := \<lparr>items = [], unfinished_tasks = 0\<rparr>,
               trace := trace s1 @ [Get (Some ?R), TaskDone, TaskDone]\<rparr>"
  have last: "worker_iteration ''out'' ?E w1 s1 = (Raise ?V, ?w2, ?s2)"
    using iteration_fatal [OF it1 nf o top] u1 c1' ev by simp
  have split: "replicate 100 ?E = replicate 99 ?E @ [?E]"
  proof -
    have "(100::nat) = Suc 99" by simp
    then have "replicate 100 ?E = replicate (Suc 99) ?E" by (simp only:)
    also have "\<dots> = replicate 99 ?E @ [?E]"
      by (simp only: replicate_Suc replicate_append_same)
    finally show ?thesis .
  qed
  have loop100: "worker_loop ''out'' (replicate 100 ?E) ?W ?S = (Crashed ?V, ?w2, ?s2)"
    unfolding split worker_loop_append loop by (simp add: last)
  let ?ws = "replicate num_workers (Continue, ?W)"
  have ws: "0 < length ?ws" "fst (?ws ! 0) = Continue" "snd (?ws ! 0) = ?W"
    by (simp_all add: num_workers_def)
  have run: "run_workers ''out'' (map (Turn 0) (replicate 100 ?E)) ?ws ?S =
      (?ws[0 := (Raise ?V, ?w2)], ?s2)"
    using run_workers_single [OF ws(1,2), of "''out''" "replicate 100 ?E" ?S] loop100 ws(3)
    by (simp add: control_of_def)
  have disp: "dispatcher ''out'' [''k1''] [?R] Map.empty (map (Turn 0) (replicate 100 ?E)) =
      Inr (0, ?ws[0 := (Raise ?V, ?w2)], ?s2)"
    by (simp only: dispatcher_def seed km prod.case sum.case Let_def run)
  have fs': "files s1 = Map.empty" using fs by simp
  show ?thesis
    unfolding disp by (simp add: num_workers_def numeral_3_eq_3 fs')
qed

subsection \<open>Sleeps\<close>

lemma sleeps_ok_log: "sleeps_ok (log e s) = (sleeps_ok s \<and> sleep_within e)"
  by (simp add: sleeps_ok_def log_def)

lemma sleeps_ok_upd [simp]:
  "sleeps_ok (s\<lparr>request_queue := q\<rparr>) = sleeps_ok s"
  "sleeps_ok (s\<lparr>files := f\<rparr>) = sleeps_ok s"
  "sleeps_ok (s\<lparr>completed_counter := c\<rparr>) = sleeps_ok s"
  by (simp_all add: sleeps_ok_def)

lemma sleep_within_simps [simp]:
  "sleep_within (Get x)" "sleep_within (Put x)" "sleep_within TaskDone"
  "sleep_within (ApiCall h r)" "sleep_within (CreateHandler h)" "sleep_within (WriteFile f)"
  by (simp_all add: sleep_within_def)

lemma sleep_within_backoff: "k < 2 ^ 53 \<Longrightarrow> sleep_within (BackoffSleep (backoff_delay k))"
  by (simp add: sleep_within_def backoff_delay_bounds del: float_val.simps)

lemma sleep_within_courtesy: "k < 2 ^ 53 \<Longrightarrow> sleep_within (CourtesySleep (courtesy_delay k))"
  by (simp add: sleep_within_def courtesy_delay_bounds del: float_val.simps)

lemma sleeps_ok_task_done: "sleeps_ok s \<Longrightarrow> sleeps_ok (snd (q_task_done s))"
  by (simp add: q_task_done_def sleeps_ok_log split: sum.splits)

lemma sleeps_ok_put: "sleeps_ok s \<Longrightarrow> sleeps_ok (q_put x s)"
  by (simp add: q_put_def sleeps_ok_log)

lemma sleeps_ok_finally:
  assumes "sleeps_ok s" and "draws_in_range ev"
  shows "sleeps_ok (snd (snd (finally_clause ev c w s)))"
proof -
  obtain r s1 where t: "q_task_done s = (r, s1)" by (cases "q_task_done s")
  have "sleeps_ok s1" using sleeps_ok_task_done [OF assms(1)] t by simp
  then show ?thesis
    using assms(2) t
    by (cases r) (simp_all add: finally_clause_def sleeps_ok_log sleep_within_courtesy draws_in_range_def)
qed

lemma sleeps_ok_except:
  assumes "sleeps_ok s" and "draws_in_range ev"
  shows "sleeps_ok (snd (snd (except_clause ev req e w s)))"
proof -
  obtain r s1 where t: "q_task_done s = (r, s1)" by (cases "q_task_done s")
  have s1: "sleeps_ok s1" using sleeps_ok_task_done [OF assms(1)] t by simp
  have b: "sleep_within (BackoffSleep (backoff_delay (backoff_draw ev)))"
    using assms(2) by (simp add: sleep_within_backoff draws_in_range_def)
  show ?thesis
    using assms s1 t b
    by (cases r)
       (simp_all add: except_clause_def Let_def sleeps_ok_finally sleeps_ok_log sleeps_ok_put)
qed

lemma sleeps_ok_try:
  assumes "sleeps_ok s" and "draws_in_range ev"
  shows "sleeps_ok (snd (snd (try_statement d ev req w s)))"
proof -
  obtain r s1 where t: "q_task_done s = (r, s1)" by (cases "q_task_done s")
  have s1: "sleeps_ok s1" using sleeps_ok_task_done [OF assms(1)] t by simp
  show ?thesis
    using assms s1 t
    by (cases r; cases "attempt ev")
       (simp_all add: try_statement_def Let_def call_gemini_api_def sleeps_ok_finally
          sleeps_ok_except sleeps_ok_log)
qed

lemma sleeps_ok_iteration:
  assumes "sleeps_ok s" and "draws_in_range ev"
  shows "sleeps_ok (snd (snd (worker_iteration d ev w s)))"
proof (cases "items (request_queue s)")
  case Nil
  then show ?thesis using assms by (simp add: worker_iteration_def)
next
  case (Cons x rest)
  let ?s1 = "log (Get x) (s\<lparr>request_queue := (request_queue s)\<lparr>items := rest\<rparr>\<rparr>)"
  have s1: "sleeps_ok ?s1" using assms(1) by (simp add: sleeps_ok_log)
  show ?thesis
  proof (cases x)
    case None
    obtain r s2 where t: "q_task_done ?s1 = (r, s2)" by (cases "q_task_done ?s1")
    have "sleeps_ok s2" using sleeps_ok_task_done [OF s1] t by simp
    then show ?thesis
      using Cons None t by (cases r) (simp_all add: worker_iteration_def Let_def)
  next
    case (Some req)
    then show ?thesis
      using Cons sleeps_ok_try [OF s1 assms(2)]
      by (simp add: worker_iteration_def Let_def)
  qed
qed

lemma sleeps_ok_loop:
  assumes "sleeps_ok s" and "list_all draws_in_range evs"
  shows "sleeps_ok (snd (snd (worker_loop d evs w s)))"
  using assms
proof (induction evs arbitrary: w s)
  case Nil
  then show ?case by simp
next
  case (Cons ev evs)
  obtain c w' s' where step: "worker_iteration d ev w s = (c, w', s')"
    by (cases "worker_iteration d ev w s") auto
  have s': "sleeps_ok s'"
    using sleeps_ok_iteration [of s ev d w] Cons.prems step by simp
  show ?case
    using step s' Cons.IH [OF s'] Cons.prems(2) by (cases c) simp_all
qed


text \<open>
  C7, as amended. Whatever \<^verbatim>\<open>random.random()\<close> draws, every backoff sleep of a
  worker lasts between 4 and 8 seconds and every courtesy sleep between the float
  nearest to 0.05 and the float nearest to 0.1, both ends included: the sums are
  rounded to 53 bits, and the largest draw rounds up to the upper end.
\<close>

theorem sleeps_within_closed_intervals:
  assumes "list_all draws_in_range evs" and "list_all sleep_within (trace s)"
  shows "list_all sleep_within (trace (snd (snd (worker_loop d evs w s))))
       \<and> list_all (\<lambda>ev.
             4 \<le> float_val (backoff_delay (backoff_draw ev))
           \<and> float_val (backoff_delay (backoff_draw ev)) \<le> 8
           \<and> 1 / 20 \<le> float_val (courtesy_delay (courtesy_draw ev))
           \<and> float_val (courtesy_delay (courtesy_draw ev))
               \<le> 3602879701896397 / 36028797018963968) evs"
proof -
  have "sleeps_ok s" using assms(2) by (simp add: sleeps_ok_def)
  then have "sleeps_ok (snd (snd (worker_loop d evs w s)))"
    using assms(1) by (rule sleeps_ok_loop)
  then have 1: "list_all sleep_within (trace (snd (snd (worker_loop d evs w s))))"
    by (simp add: sleeps_ok_def)
  have lo: "(1::rat) / 20 \<le> float_val float_0_05"
    unfolding float_0_05_val by simp
  have hi: "2 * float_val float_0_05 = 3602879701896397 / 36028797018963968"
    unfolding float_0_05_val by simp
  have 2: "4 \<le> float_val (backoff_delay (backoff_draw ev))
           \<and> float_val (backoff_delay (backoff_draw ev)) \<le> 8
           \<and> 1 / 20 \<le> float_val (courtesy_delay (courtesy_draw ev))
           \<and> float_val (courtesy_delay (courtesy_draw ev))
               \<le> 3602879701896397 / 36028797018963968"
    if "draws_in_range ev" for ev
  proof -
    from that have b: "backoff_draw ev < 2 ^ 53" and c: "courtesy_draw ev < 2 ^ 53"
      by (simp_all add: draws_in_range_def)
    from courtesy_delay_bounds [OF c] lo hi
    have "1 / 20 \<le> float_val (courtesy_delay (courtesy_draw ev))"
      and "float_val (courtesy_delay (courtesy_draw ev)) \<le> 3602879701896397 / 36028797018963968"
      by linarith+
    with backoff_delay_bounds [OF b] show ?thesis by blast
  qed
  from 1 2 assms(1) show ?thesis by (simp add: list_all_iff)
qed

theorem sleeps_within_closed_intervals_witness:
  "list_all draws_in_range [example_env (ApiFails ''500 internal error'')]
   \<and> list_all sleep_within
        (trace (example_state [Some (example_request ''fig1'' ''images/abc.jpg'')]))
   \<and> list_all sleep_within
        (trace (snd (snd (worker_loop ''out'' [example_env (ApiFails ''500 internal error'')]
           (worker_init (example_state [Some (example_request ''fig1'' ''images/abc.jpg'')]))
           (example_state [Some (example_request ''fig1'' ''images/abc.jpg'')])))))
   \<and> 4 \<le> float_val (backoff_delay 0) \<and> float_val (backoff_delay 0) \<le> 8"
proof -
  let ?E = "example_env (ApiFails ''500 internal error'')"
  let ?S = "example_state [Some (example_request ''fig1'' ''images/abc.jpg'')]"
  have h1: "list_all draws_in_range [?E]"
    by (simp add: draws_in_range_def example_env_def)
  have h2: "list_all sleep_within (trace ?S)"
    by (simp add: example_state_def)
  have d: "backoff_draw ?E = 0" by (simp add: example_env_def)
  from sleeps_within_closed_intervals [OF h1 h2, of "''out''" "worker_init ?S"] h1 h2
  show ?thesis
    by (simp only: list.pred_inject d)
qed

text \<open>
  C7 as stated fails at the largest draw \<open>(2 ^ 53 - 1) / 2 ^ 53\<close>: the backoff sleep
  of that iteration is exactly 8 seconds and its courtesy sleep is the float nearest
  to 0.1, which is above 1/10; neither lies in the half-open interval.
\<close>

theorem sleeps_not_half_open:
  "draws_in_range \<lparr>attempt = ApiFails ''500 internal error'',
                    backoff_draw = 9007199254740991, courtesy_draw = 9007199254740991\<rparr>
   \<and> trace (snd (snd (worker_iteration ''out''
         \<lparr>attempt = ApiFails ''500 internal error'',
           backoff_draw = 9007199254740991, courtesy_draw = 9007199254740991\<rparr>
         (worker_init (example_state [Some (example_request ''fig1'' ''images/abc.jpg'')]))
         (example_state [Some (example_request ''fig1'' ''images/abc.jpg'')])))) =
       [Get (Some (example_request ''fig1'' ''images/abc.jpg'')),
        ApiCall \<lparr>h_api_key = ''k1'', h_model_name = ''gemini-2.0-flash''\<rparr>
          (example_request ''fig1'' ''images/abc.jpg''),
        Put (Some (example_request ''fig1'' ''images/abc.jpg'')),
        BackoffSleep (Float 9007199254740992 (- 50)),
        TaskDone,
        CourtesySleep (Float 7205759403792794 (- 56))]
   \<and> float_val (Float 9007199254740992 (- 50)) = 8
   \<and> 1 / 10 < float_val (Float 7205759403792794 (- 56))
   \<and> \<not> sleep_half_open (BackoffSleep (Float 9007199254740992 (- 50)))
   \<and> \<not> sleep_half_open (CourtesySleep (Float 7205759403792794 (- 56)))"
proof -
  let ?R = "example_request ''fig1'' ''images/abc.jpg''"
  let ?S = "example_state [Some ?R]"
  let ?E = "\<lparr>attempt = ApiFails ''500 internal error'',
             backoff_draw = 9007199254740991, courtesy_draw = 9007199254740991\<rparr>"
  have h1: "items (request_queue ?S) = Some ?R # []"
    by (simp add: example_state_def)
  have h2: "files ?S (generated_response_file ''out'' ?R) = None"
    by (simp add: example_state_def)
  have msg: "attempt_error (attempt ?E) = Some ''500 internal error''"
    by (simp add: attempt_error_def)
  have nq: "\<not> quota_exceeded ''500 internal error''"
    by (simp add: quota_exceeded_def possible_errors_def)
  have c: "consecutive_errors (worker_init ?S) + 1 < max_consecutive_errors"
    by (simp add: worker_init_def max_consecutive_errors_def)
  have d: "draws_in_range ?E" by (simp add: draws_in_range_def)
  have tr: "trace (snd (snd (worker_iteration ''out'' ?E (worker_init ?S) ?S))) =
       [Get (Some ?R),
        ApiCall \<lparr>h_api_key = ''k1'', h_model_name = ''gemini-2.0-flash''\<rparr> ?R,
        Put (Some ?R),
        BackoffSleep (Float 9007199254740992 (- 50)),
        TaskDone,
        CourtesySleep (Float 7205759403792794 (- 56))]"
    unfolding iteration_retry [OF h1 h2 msg nq c]
    by (simp add: backoff_delay_top courtesy_delay_top attempt_events_def api_invoked_def
        example_state_def worker_init_def create_api_handler_def)
  have v: "float_val (Float 9007199254740992 (- 50)) = 8"
    "1 / 10 < float_val (Float 7205759403792794 (- 56))"
    by simp_all
  have n: "\<not> sleep_half_open (BackoffSleep (Float 9007199254740992 (- 50)))"
    "\<not> sleep_half_open (CourtesySleep (Float 7205759403792794 (- 56)))"
    by (simp_all add: sleep_half_open_def)
  from d tr v n show ?thesis by blast
qed


subsection \<open>The response file\<close>

lemma iteration_success_files:
  assumes "items (request_queue s) = Some req # rest"
    and "files s (generated_response_file d req) = None"
    and "attempt ev = Succeeds resp"
  shows "files (snd (snd (worker_iteration d ev w s))) =
           (files s)(generated_response_file d req \<mapsto>
              \<lparr>res_image_id = image_id req,
               res_image_path = image_path req,
               res_image_primary_label = image_primary_label req,
               res_image_secondary_label = image_secondary_label req,
               res_api_response = resp,
               res_prompt = prompt req,
               res_model_name = h_model_name (api_handler w)\<rparr>)"
  using assms by (simp add: step_defs)

lemma generated_response_file_eq_iff:
  "generated_response_file d r1 = generated_response_file d r2 \<longleftrightarrow>
     local_image_id r1 = local_image_id r2"
  by (simp add: generated_response_file_def)

text \<open>
  C6 as stated fails: the path of the response file does not come from the job id.
  Two requests with different ids and the same base name of \<^verbatim>\<open>image_path\<close> share
  one response file, and two requests with the same id and different images have
  different ones.
\<close>

theorem response_file_not_from_image_id:
  "image_id (example_request ''fig1'' ''images/abc.jpg'') \<noteq>
     image_id (example_request ''fig2'' ''copies/abc.jpg'')
   \<and> generated_response_file ''out'' (example_request ''fig1'' ''images/abc.jpg'') =
     generated_response_file ''out'' (example_request ''fig2'' ''copies/abc.jpg'')
   \<and> image_id (example_request ''fig1'' ''images/abc.jpg'') =
     image_id (example_request ''fig1'' ''images/xyz.jpg'')
   \<and> generated_response_file ''out'' (example_request ''fig1'' ''images/abc.jpg'') \<noteq>
     generated_response_file ''out'' (example_request ''fig1'' ''images/xyz.jpg'')"
  by (simp add: example_request_def generated_response_file_def local_image_id_def basename_def)

text \<open>
  C6, as amended. A successful attempt writes one file: the directory afterwards is
  the old one with the response file bound to the full result record (image id, image
  path, the two labels, the API response, the prompt and the model name of the
  handler). The path is \<^verbatim>\<open>output_dir\<close>, a slash, the base name of
  \<^verbatim>\<open>image_path\<close> with every \<^verbatim>\<open>.jpg\<close> removed, and \<^verbatim>\<open>_response.json\<close>; two
  requests have the same path exactly when those stripped base names agree.
\<close>

theorem result_file_from_image_path:
  assumes "items (request_queue s) = Some req # rest"
    and "files s (generated_response_file d req) = None"
    and "attempt ev = Succeeds resp"
  shows "files (snd (snd (worker_iteration d ev w s))) =
           (files s)(generated_response_file d req \<mapsto>
              \<lparr>res_image_id = image_id req,
               res_image_path = image_path req,
               res_image_primary_label = image_primary_label req,
               res_image_secondary_label = image_secondary_label req,
               res_api_response = resp,
               res_prompt = prompt req,
               res_model_name = h_model_name (api_handler w)\<rparr>)
       \<and> generated_response_file d req =
           d @ ''/'' @ str_replace ''.jpg'' [] (basename (image_path req)) @ ''_response.json''
       \<and> (generated_response_file d req' = generated_response_file d req \<longleftrightarrow>
            str_replace ''.jpg'' [] (basename (image_path req')) =
            str_replace ''.jpg'' [] (basename (image_path req)))"
  using iteration_success_files [OF assms, of w] generated_response_file_eq_iff [of d req' req]
  by (simp add: generated_response_file_def local_image_id_def)

theorem result_file_from_image_path_witness:
  "items (request_queue (example_state [Some (example_request ''fig1'' ''images/abc.jpg'')])) =
     Some (example_request ''fig1'' ''images/abc.jpg'') # []
   \<and> files (example_state [Some (example_request ''fig1'' ''images/abc.jpg'')])
        (generated_response_file ''out'' (example_request ''fig1'' ''images/abc.jpg'')) = None
   \<and> attempt (example_env (Succeeds (Some ''answer''))) = Succeeds (Some ''answer'')
   \<and> files (snd (snd (worker_iteration ''out'' (example_env (Succeeds (Some ''answer'')))
          (worker_init (example_state [Some (example_request ''fig1'' ''images/abc.jpg'')]))
          (example_state [Some (example_request ''fig1'' ''images/abc.jpg'')]))))
        ''out/abc_response.json'' =
       Some \<lparr>res_image_id = ''fig1'',
             res_image_path = ''images/abc.jpg'',
             res_image_primary_label = Some ''clinical'',
             res_image_secondary_label = None,
             res_api_response = Some ''answer'',
             res_prompt = ''Describe the image.'',
             res_model_name = ''gemini-2.0-flash''\<rparr>"
proof -
  let ?R = "example_request ''fig1'' ''images/abc.jpg''"
  let ?S = "example_state [Some ?R]"
  let ?E = "example_env (Succeeds (Some ''answer''))"
  have h1: "items (request_queue ?S) = Some ?R # []"
    by (simp add: example_state_def)
  have h2: "files ?S (generated_response_file ''out'' ?R) = None"
    by (simp add: example_state_def)
  have h3: "attempt ?E = Succeeds (Some ''answer'')"
    by (simp add: example_env_def)
  have f: "generated_response_file ''out'' ?R = ''out/abc_response.json''"
    by (simp add: example_request_def generated_response_file_def local_image_id_def basename_def)
  from result_file_from_image_path [OF h1 h2 h3, of "worker_init ?S" ?R]
  have "files (snd (snd (worker_iteration ''out'' ?E (worker_init ?S) ?S))) =
           (files ?S)(generated_response_file ''out'' ?R \<mapsto>
              \<lparr>res_image_id = image_id ?R,
               res_image_path = image_path ?R,
               res_image_primary_label = image_primary_label ?R,
               res_image_secondary_label = image_secondary_label ?R,
               res_api_response = Some ''answer'',
               res_prompt = prompt ?R,
               res_model_name = h_model_name (api_handler (worker_init ?S))\<rparr>)"
    by blast
  then have "files (snd (snd (worker_iteration ''out'' ?E (worker_init ?S) ?S)))
        ''out/abc_response.json'' =
       Some \<lparr>res_image_id = ''fig1'',
             res_image_path = ''images/abc.jpg'',
             res_image_primary_label = Some ''clinical'',
             res_image_secondary_label = None,
             res_api_response = Some ''answer'',
             res_prompt = ''Describe the image.'',
             res_model_name = ''gemini-2.0-flash''\<rparr>"
    unfolding f
    by (simp add: example_request_def example_state_def worker_init_def create_api_handler_def)
  with h1 h2 h3 show ?thesis by blast
qed

subsection \<open>Jobs that already have a response file\<close>

text \<open>
  The seeding loop puts exactly the requests without a response file on the queue and
  counts the others. In every run, whatever the schedule and whatever the outside
  world answers, no response file disappears and the API is only called for requests
  that had no response file when the run started.
\<close>

lemma seed_queue_filter:
  "seed_queue d fs reqs q n =
     (q\<lparr>items := items q @ map Some (filter (\<lambda>r. fs (generated_response_file d r) = None) reqs),
        unfinished_tasks := unfinished_tasks q +
          length (filter (\<lambda>r. fs (generated_response_file d r) = None) reqs)\<rparr>,
      n + length (filter (\<lambda>r. fs (generated_response_file d r) \<noteq> None) reqs))"
  by (induction reqs arbitrary: q n) (simp_all add: put_def)

lemma api_calls_log:
  "api_calls (trace (log e s)) =
     api_calls (trace s) @ (case e of ApiCall _ r \<Rightarrow> [r] | _ \<Rightarrow> [])"
  by (simp add: api_calls_def log_def)

lemma files_log [simp]: "files (log e s) = files s"
  by (simp add: log_def)

lemma results_kept_log:
  "results_kept fs d (log e s) =
     (results_kept fs d s \<and> (case e of ApiCall _ r \<Rightarrow> fs (generated_response_file d r) = None | _ \<Rightarrow> True))"
  by (cases e) (auto simp: results_kept_def api_calls_log)

lemma results_kept_upd [simp]:
  "results_kept fs d (s\<lparr>request_queue := q\<rparr>) = results_kept fs d s"
  "results_kept fs d (s\<lparr>completed_counter := c\<rparr>) = results_kept fs d s"
  by (simp_all add: results_kept_def)

lemma results_kept_write:
  "results_kept fs d s \<Longrightarrow> results_kept fs d (s\<lparr>files := (files s)(f \<mapsto> r)\<rparr>)"
  by (auto simp: results_kept_def)

lemma results_kept_task_done: "results_kept fs d s \<Longrightarrow> results_kept fs d (snd (q_task_done s))"
  by (simp add: q_task_done_def results_kept_log split: sum.splits)

lemma results_kept_put: "results_kept fs d s \<Longrightarrow> results_kept fs d (q_put x s)"
  by (simp add: q_put_def results_kept_log)

lemma results_kept_finally:
  assumes "results_kept fs d s"
  shows "results_kept fs d (snd (snd (finally_clause ev c w s)))"
proof -
  obtain r s1 where t: "q_task_done s = (r, s1)" by (cases "q_task_done s")
  have "results_kept fs d s1" using results_kept_task_done [OF assms] t by simp
  then show ?thesis
    using t by (cases r) (simp_all add: finally_clause_def results_kept_log)
qed

lemma results_kept_except:
  assumes "results_kept fs d s"
  shows "results_kept fs d (snd (snd (except_clause ev req e w s)))"
proof -
  obtain r s1 where t: "q_task_done s = (r, s1)" by (cases "q_task_done s")
  have s1: "results_kept fs d s1" using results_kept_task_done [OF assms] t by simp
  show ?thesis
    using assms s1 t
    by (cases r)
       (simp_all add: except_clause_def Let_def results_kept_finally results_kept_log
          results_kept_put)
qed

lemma results_kept_try:
  assumes "results_kept fs d s"
  shows "results_kept fs d (snd (snd (try_statement d ev req w s)))"
proof (cases "files s (generated_response_file d req) = None")
  case False
  obtain r s1 where t: "q_task_done s = (r, s1)" by (cases "q_task_done s")
  have s1: "results_kept fs d s1" using results_kept_task_done [OF assms] t by simp
  show ?thesis
    using False s1 t
    by (cases r)
       (simp_all add: try_statement_def Let_def results_kept_finally results_kept_except)
next
  case True
  then have fresh: "fs (generated_response_file d req) = None"
    using assms by (auto simp: results_kept_def)
  let ?s1 = "if api_invoked (attempt ev) then log (ApiCall (api_handler w) req) s else s"
  have s1: "results_kept fs d ?s1"
    using assms fresh by (simp add: results_kept_log)
  have f1: "files ?s1 = files s" by (simp add: log_def)
  show ?thesis
  proof (cases "attempt ev")
    case (Succeeds resp)
    have "results_kept fs d (?s1\<lparr>files := (files ?s1)(generated_response_file d req \<mapsto> res)\<rparr>)" for res
      using s1 by (rule results_kept_write)
    then show ?thesis
      using True Succeeds
      by (simp add: try_statement_def Let_def call_gemini_api_def results_kept_finally
          results_kept_log)
  qed (use True s1 in \<open>simp_all add: try_statement_def Let_def call_gemini_api_def
          results_kept_except\<close>)
qed

lemma results_kept_iteration:
  assumes "results_kept fs d s"
  shows "results_kept fs d (snd (snd (worker_iteration d ev w s)))"
proof (cases "items (request_queue s)")
  case Nil
  then show ?thesis using assms by (simp add: worker_iteration_def)
next
  case (Cons x rest)
  let ?s1 = "log (Get x) (s\<lparr>request_queue := (request_queue s)\<lparr>items := rest\<rparr>\<rparr>)"
  have s1: "results_kept fs d ?s1" using assms by (simp add: results_kept_log)
  show ?thesis
  proof (cases x)
    case None
    obtain r s2 where t: "q_task_done ?s1 = (r, s2)" by (cases "q_task_done ?s1")
    have "results_kept fs d s2" using results_kept_task_done [OF s1] t by simp
    then show ?thesis
      using Cons None t by (cases r) (simp_all add: worker_iteration_def Let_def)
  next
    case (Some req)
    then show ?thesis
      using Cons results_kept_try [OF s1]
      by (simp add: worker_iteration_def Let_def)
  qed
qed

lemma results_kept_shutdown:
  "results_kept fs d s \<Longrightarrow> results_kept fs d ((q_put None ^^ n) s)"
  by (induction n) (simp_all add: results_kept_put)

lemma results_kept_run:
  assumes "results_kept fs d s"
  shows "results_kept fs d (snd (run_workers d sched ws s))"
  using assms
proof (induction d sched ws s rule: run_workers.induct)
  case (1 d ws s)
  then show ?case by simp
next
  case (2 d i ev sched ws s)
  show ?case
  proof (cases "i < length ws \<and> fst (ws ! i) = Continue")
    case True
    obtain c w' s' where step: "worker_iteration d ev (snd (ws ! i)) s = (c, w', s')"
      by (cases "worker_iteration d ev (snd (ws ! i)) s") auto
    have "results_kept fs d s'"
      using results_kept_iteration [OF "2.prems", of ev "snd (ws ! i)"] step by simp
    then show ?thesis
      using "2.IH"(1) [OF True step [symmetric]] True step by simp
  next
    case False
    then show ?thesis using "2.IH"(2) "2.prems" by auto
  qed
next
  case (3 d sched ws s)
  then show ?case by (simp add: results_kept_shutdown)
qed

lemma skip_property:
  assumes "dispatcher d keys api_requests fs sched = Inr (no_of_skipped, ws, s)"
  shows "no_of_skipped = length (filter (\<lambda>r. fs (generated_response_file d r) \<noteq> None) api_requests)"
    and "list_all (\<lambda>r. fs (generated_response_file d r) = None) (api_calls (trace s))"
    and "dom fs \<subseteq> dom (files s)"
proof -
  from assms obtain km where km: "APIKeyManager_init keys = Inr km"
    by (auto simp: dispatcher_def seed_queue_filter split: sum.splits)
  let ?q = "fst (seed_queue d fs api_requests Queue_init 0)"
  let ?s0 = "\<lparr>request_queue = ?q, key_manager = km, files = fs,
              completed_counter = 0, trace = []\<rparr>"
  have s: "s = snd (run_workers d sched (replicate num_workers (Continue, worker_init ?s0)) ?s0)"
    and n: "no_of_skipped = snd (seed_queue d fs api_requests Queue_init 0)"
    using assms km by (simp_all add: dispatcher_def Let_def split: prod.splits)
  have "results_kept fs d ?s0" by (simp add: results_kept_def api_calls_def)
  then have "results_kept fs d s" unfolding s by (rule results_kept_run)
  then show "list_all (\<lambda>r. fs (generated_response_file d r) = None) (api_calls (trace s))"
    and "dom fs \<subseteq> dom (files s)"
    by (simp_all add: results_kept_def)
  show "no_of_skipped = length (filter (\<lambda>r. fs (generated_response_file d r) \<noteq> None) api_requests)"
    unfolding n by (simp add: seed_queue_filter)
qed

end
